theory Spec2Isabelle
  imports Main "HOL-Library.Multiset"
begin

section \<open>Strings, bytes and numbers\<close>

text \<open>
  Python \<open>str\<close> and \<open>bytes\<close> values are both modelled as \<open>string\<close> (a list of 8-bit
  characters); Python's unbounded integers are \<open>int\<close>.  \<open>str_int\<close> is \<open>str(n)\<close> and
  \<open>format_03d\<close> is the format specification \<open>{n:03d}\<close>: the sign comes first, then
  zeros up to a total width of three, then the digits.
\<close>

definition digit_char :: "nat \<Rightarrow> char" where
  "digit_char d = ''0123456789'' ! d"

fun str_nat :: "nat \<Rightarrow> string" where
  "str_nat n = (if n < 10 then [digit_char n] else str_nat (n div 10) @ [digit_char (n mod 10)])"

declare str_nat.simps [simp del]

definition str_int :: "int \<Rightarrow> string" where
  "str_int i = (if i < 0 then CHR ''-'' # str_nat (nat (- i)) else str_nat (nat i))"

definition format_03d :: "int \<Rightarrow> string" where
  "format_03d i =
     (let sgn = (if i < 0 then ''-'' else '''');
          ds = str_nat (nat \<bar>i\<bar>)
      in sgn @ replicate (3 - length sgn - length ds) CHR ''0'' @ ds)"

text \<open>
  \<open>contains_str s sub\<close> is the substring test (XPath \<open>contains(s, sub)\<close>, Python
  \<open>sub in s\<close>).
\<close>

fun contains_str :: "string \<Rightarrow> string \<Rightarrow> bool" where
  "contains_str [] sub = (sub = [])"
| "contains_str (c # cs) sub = (take (length sub) (c # cs) = sub \<or> contains_str cs sub)"

text \<open>
  \<open>bytes_replace old new s\<close> is \<open>s.replace(old, new)\<close>: one scan from the left, every
  non-overlapping occurrence of \<open>old\<close> replaced, the replacement never rescanned.  With
  an empty \<open>old\<close> Python inserts \<open>new\<close> before every byte and at the end.
\<close>

function bytes_replace :: "string \<Rightarrow> string \<Rightarrow> string \<Rightarrow> string" where
  "bytes_replace old new [] = (if old = [] then new else [])"
| "bytes_replace old new (c # cs) =
     (if old = [] then new @ c # bytes_replace old new cs
      else if take (length old) (c # cs) = old
           then new @ bytes_replace old new (drop (length old) (c # cs))
           else c # bytes_replace old new cs)"
  by pat_completeness auto
termination
  by (relation "measure (\<lambda>(old, new, s). length s)") (auto simp: neq_Nil_conv)

text \<open>
  The textual pass of \<open>clean_transformed_xml\<close> (line 90 of the script), applied to the
  serialised bytes:
  \<^verbatim>\<open>s.replace(b'>\n<lb ', b'>\n<lb ').replace(b'\n<lb', b'<lb')\<close>
\<close>

definition lb_fixup :: "string \<Rightarrow> string" where
  "lb_fixup s =
     bytes_replace ''\<newline><lb'' ''<lb'' (bytes_replace ''>\<newline><lb '' ''>\<newline><lb '' s)"

section \<open>Page ranges and output paths\<close>

text \<open>
  \<open>range(start, stop)\<close> with its two attributes; iterating over it visits
  \<open>start, start + 1, ..., stop - 1\<close>.
\<close>

record py_range =
  start :: int
  stop :: int

definition range_list :: "py_range \<Rightarrow> int list" where
  "range_list r = [start r .. stop r - 1]"

definition range_str :: "py_range \<Rightarrow> string" where
  "range_str r =
     (if stop r - start r > 1 then str_int (start r) @ ''-'' @ str_int (stop r - 1)
      else str_int (start r))"

definition output_file_path :: "string \<Rightarrow> py_range \<Rightarrow> string" where
  "output_file_path year_of_volume r = ''output/'' @ year_of_volume @ ''_'' @ range_str r @ ''_before.xml''"

definition formatted_range_str :: "py_range \<Rightarrow> string" where
  "formatted_range_str r =
     (if stop r - start r > 1 then format_03d (start r) @ ''-'' @ format_03d (stop r - 1)
      else format_03d (start r))"

definition transformed_output_path :: "string \<Rightarrow> py_range \<Rightarrow> string" where
  "transformed_output_path year_of_volume r =
     ''output/'' @ year_of_volume @ ''_'' @ formatted_range_str r @ ''.xml''"

section \<open>XML trees as lxml holds them\<close>

text \<open>
  An element has a tag in Clark notation (\<open>{namespace}local\<close>), its attributes in
  order, its text and its children.  \<open>nid\<close> is the identity of the node: the parser
  gives every element of the source document its own number, and elements that the
  script itself creates (\<open>etree.Element\<close>, \<open>etree.SubElement\<close>) carry \<open>None\<close>, since
  the script never looks them up again.  Identity matters because \<open>parent.append(x)\<close>
  of lxml moves \<open>x\<close>: the node leaves the place where it currently is.
\<close>

datatype xml =
  Elem (nid: "nat option") (tag: string) (attrib: "(string \<times> string) list")
       (elem_text: "string option") (kids: "xml list")

definition tei :: "string \<Rightarrow> string" where
  "tei name = ''{http://www.tei-c.org/ns/1.0}'' @ name"

definition xml_id :: string where
  "xml_id = ''{http://www.w3.org/XML/1998/namespace}id''"

definition get_attr :: "xml \<Rightarrow> string \<Rightarrow> string option" where
  "get_attr e k = map_of (attrib e) k"

text \<open>All nodes of a tree, and of a list of trees, in document order.\<close>

fun nodes :: "xml \<Rightarrow> xml list" and nodes_f :: "xml list \<Rightarrow> xml list" where
  "nodes (Elem i t a x ks) = Elem i t a x ks # nodes_f ks"
| "nodes_f [] = []"
| "nodes_f (k # ks) = nodes k @ nodes_f ks"

definition descendants :: "xml \<Rightarrow> xml list" where
  "descendants e = nodes_f (kids e)"

text \<open>
  The three path expressions of the script, as predicates on an element, for the page
  number \<open>n\<close> that the f-string puts into them:
  \<^verbatim>\<open>.//tei:surface[@xml:id='facs_{n}']\<close>,
  \<^verbatim>\<open>.//tei:table[@facs='#facs_{n}_t1']\<close> and
  \<^verbatim>\<open>.//tei:ab[contains(@facs, '#facs_{n}_')]\<close>
  (a missing attribute has the string value \<open>''\<close> in XPath).
  \<open>findall\<close> (and \<open>xpath\<close>) return the matching proper descendants of the context
  node in document order.
\<close>

definition surface_match :: "int \<Rightarrow> xml \<Rightarrow> bool" where
  "surface_match n e \<longleftrightarrow>
     tag e = tei ''surface'' \<and> get_attr e xml_id = Some (''facs_'' @ str_int n)"

definition table_match :: "int \<Rightarrow> xml \<Rightarrow> bool" where
  "table_match n e \<longleftrightarrow>
     tag e = tei ''table'' \<and> get_attr e ''facs'' = Some (''#facs_'' @ str_int n @ ''_t1'')"

definition ab_match :: "int \<Rightarrow> xml \<Rightarrow> bool" where
  "ab_match n e \<longleftrightarrow>
     tag e = tei ''ab'' \<and>
     contains_str (case get_attr e ''facs'' of None \<Rightarrow> [] | Some v \<Rightarrow> v)
       (''#facs_'' @ str_int n @ ''_'')"

definition findall :: "(xml \<Rightarrow> bool) \<Rightarrow> xml \<Rightarrow> xml list" where
  "findall p e = filter p (descendants e)"

definition extract_surface_elements :: "xml \<Rightarrow> py_range \<Rightarrow> xml list" where
  "extract_surface_elements root facs_start_range =
     concat (map (\<lambda>facs_start. findall (surface_match facs_start) root)
                 (range_list facs_start_range))"

text \<open>
  The script also collects the tables of all pages (line 120) and never uses the list;
  collecting changes nothing, so the run below leaves the call out.
\<close>

definition extract_table_elements :: "xml \<Rightarrow> py_range \<Rightarrow> xml list" where
  "extract_table_elements root facs_start_range =
     concat (map (\<lambda>facs_start. findall (table_match facs_start) root)
                 (range_list facs_start_range))"

subsection \<open>Moving nodes\<close>

text \<open>
  While the script runs there are two trees: the source tree under \<open>root\<close> and the new
  document.  Of the new document only the children of its \<open>facsimile\<close> element and of
  its \<open>div\<close> element change, so the state holds these two child lists beside the
  source tree.
\<close>

record doc_state =
  root :: xml
  facsimile :: "xml list"
  div_elem :: "xml list"

fun remove_node :: "nat \<Rightarrow> xml \<Rightarrow> xml" and remove_forest :: "nat \<Rightarrow> xml list \<Rightarrow> xml list" where
  "remove_node i (Elem j t a x ks) = Elem j t a x (remove_forest i ks)"
| "remove_forest i [] = []"
| "remove_forest i (k # ks) =
     (if nid k = Some i then remove_forest i ks else remove_node i k # remove_forest i ks)"

definition find_by_id :: "nat \<Rightarrow> xml list \<Rightarrow> xml option" where
  "find_by_id i ns = List.find (\<lambda>e. nid e = Some i) ns"

text \<open>
  \<open>detach x s\<close> takes the node that \<open>x\<close> refers to out of the place where it is now
  (below \<open>root\<close>, or inside a node that was moved to \<open>facsimile\<close> or \<open>div\<close> before) and
  returns it as it is now, with the state it left.  A node that is nowhere in the state
  has no parent and is returned unchanged.
\<close>

definition detach :: "xml \<Rightarrow> doc_state \<Rightarrow> xml \<times> doc_state" where
  "detach x s =
     (case nid x of
        None \<Rightarrow> (x, s)
      | Some i \<Rightarrow>
         (case find_by_id i (descendants (root s) @ nodes_f (facsimile s) @ nodes_f (div_elem s)) of
            None \<Rightarrow> (x, s)
          | Some y \<Rightarrow>
              (y, s\<lparr>root := remove_node i (root s),
                    facsimile := remove_forest i (facsimile s),
                    div_elem := remove_forest i (div_elem s)\<rparr>)))"

definition facsimile_append :: "xml \<Rightarrow> doc_state \<Rightarrow> doc_state" where
  "facsimile_append x s = (case detach x s of (y, s') \<Rightarrow> s'\<lparr>facsimile := facsimile s' @ [y]\<rparr>)"

definition div_append :: "xml \<Rightarrow> doc_state \<Rightarrow> doc_state" where
  "div_append x s = (case detach x s of (y, s') \<Rightarrow> s'\<lparr>div_elem := div_elem s' @ [y]\<rparr>)"

subsection \<open>The new document\<close>

text \<open>
  \<open>create_tei_header\<close> builds the root element with its header.  Only the root carries
  the TEI namespace in its tag; the elements below it are created with plain names, as
  in the script.  The namespace map of the root is not an attribute and is left out.
\<close>

definition create_tei_header :: "string \<Rightarrow> string \<Rightarrow> string \<Rightarrow> string \<Rightarrow> string \<Rightarrow> xml" where
  "create_tei_header year_of_volume publisher_text pub_place_text title_series_text idno_external_text =
     Elem None (tei ''TEI'') [] None
       [Elem None ''teiHeader'' [] None
         [Elem None ''fileDesc'' [] None
           [Elem None ''titleStmt'' [] None
              [Elem None ''title'' [(''type'', ''main'')]
                 (Some (''Repertoire de tous les Spectacles '' @ year_of_volume)) []],
            Elem None ''publicationStmt'' [] None
              [Elem None ''publisher'' [] (Some publisher_text) [],
               Elem None ''pubPlace'' [] (Some pub_place_text) [],
               Elem None ''date'' [] (Some year_of_volume) []],
            Elem None ''seriesStmt'' [] None
              [Elem None ''title'' [] (Some title_series_text) []],
            Elem None ''sourceDesc'' [] None
              [Elem None ''bibl'' [] None
                 [Elem None ''title'' [(''type'', ''main'')]
                    (Some (''Repertoire de tous les Spectacles '' @ year_of_volume)) [],
                  Elem None ''idno'' [(''type'', ''external'')] (Some idno_external_text) [],
                  Elem None ''note'' []
                    (Some (''This manuscript, compiled by Philippe Gumpenhuber, contains a repertoire of all the spectacles '' @
                           ''performed in Vienna during the years 1758-1759, and 1761-1763.'')) []]]]]]"

text \<open>The page-break element of line 137.\<close>

definition pb :: "int \<Rightarrow> xml" where
  "pb facs_start =
     Elem None ''pb''
       [(''facs'', ''#facs_'' @ str_int facs_start),
        (''n'', str_int facs_start),
        (xml_id, ''img_00'' @ str_int facs_start)]
       None []"

text \<open>
  One turn of the loop of lines 136 to 151: the page break is added to \<open>div\<close>, then the
  tables of the page that \<open>root\<close> holds at this moment, or else its \<open>ab\<close> blocks.
\<close>

definition page_content :: "int \<Rightarrow> doc_state \<Rightarrow> xml list" where
  "page_content facs_start s =
     (let current_table_elements = findall (table_match facs_start) (root s)
      in if current_table_elements \<noteq> [] then current_table_elements
         else findall (ab_match facs_start) (root s))"

definition page_step :: "int \<Rightarrow> doc_state \<Rightarrow> doc_state" where
  "page_step facs_start s =
     (let s1 = s\<lparr>div_elem := div_elem s @ [pb facs_start]\<rparr>
      in fold div_append (page_content facs_start s1) s1)"

record config =
  file_path :: string
  year_of_volume :: string
  pub_place_text :: string
  publisher_text :: string
  title_series_text :: string
  idno_external_text :: string
  facs_start_range :: py_range
  xslt_path :: string

text \<open>The values that the script hard-codes (lines 96 to 116 and 165).\<close>

definition script_config :: config where
  "script_config =
     \<lparr>file_path = ''export_files/file.xml'',
      year_of_volume = ''1758'',
      pub_place_text = ''Cambridge, MA'',
      publisher_text = ''Houghton Library, Harvard University'',
      title_series_text = ''Austrian Science Fund project \"GuDiE\" (FWF-Grant-DOI: 10.55776/P36729)'',
      idno_external_text = ''https://gams-staging.uni-graz.at/gamsdev/dittmann/iiif/manifests/MS_Thr_248-0.json'',
      facs_start_range = \<lparr>start = 81, stop = 89\<rparr>,
      xslt_path = ''xslt/test-stylesheet.xsl''\<rparr>"

text \<open>
  Lines 119 to 151.  \<open>surfaces_moved\<close> is the state after the loop of lines 127 and 128,
  \<open>state_before rng root0 n\<close> the state when the loop of line 136 reaches page \<open>n\<close>, and
  \<open>moved_state\<close> the state after that loop.
\<close>

definition surfaces_moved :: "py_range \<Rightarrow> xml \<Rightarrow> doc_state" where
  "surfaces_moved rng root0 =
     (let surface_elements = extract_surface_elements root0 rng
      in fold facsimile_append surface_elements \<lparr>root = root0, facsimile = [], div_elem = []\<rparr>)"

definition state_before :: "py_range \<Rightarrow> xml \<Rightarrow> int \<Rightarrow> doc_state" where
  "state_before rng root0 n = fold page_step [start rng .. n - 1] (surfaces_moved rng root0)"

definition moved_state :: "py_range \<Rightarrow> xml \<Rightarrow> doc_state" where
  "moved_state rng root0 = fold page_step (range_list rng) (surfaces_moved rng root0)"

definition tei_document :: "config \<Rightarrow> xml \<Rightarrow> xml" where
  "tei_document cfg root0 =
     (let tei_root = create_tei_header (year_of_volume cfg) (publisher_text cfg) (pub_place_text cfg)
                        (title_series_text cfg) (idno_external_text cfg);
          s = moved_state (facs_start_range cfg) root0
      in Elem (nid tei_root) (tag tei_root) (attrib tei_root) (elem_text tei_root)
           (kids tei_root @
            [Elem None ''facsimile'' [] None (facsimile s),
             Elem None ''text'' [] None
               [Elem None ''body'' [] None
                  [Elem None ''div'' [] None (div_elem s)]]]))"

subsection \<open>Notions used to state the properties\<close>

text \<open>
  The children of \<open>text/body/div\<close> of a document, and the test for a page-break element
  (the element the script creates has the plain tag \<open>pb\<close>; a \<open>pb\<close> of the source
  document has the TEI namespace).
\<close>

definition child_elems :: "string \<Rightarrow> xml list \<Rightarrow> xml list" where
  "child_elems name es = concat (map kids (filter (\<lambda>e. tag e = name) es))"

definition body_div :: "xml \<Rightarrow> xml list" where
  "body_div doc = child_elems ''div'' (child_elems ''body'' (child_elems ''text'' (kids doc)))"

definition is_page_break :: "xml \<Rightarrow> bool" where
  "is_page_break e \<longleftrightarrow> tag e = ''pb'' \<or> tag e = tei ''pb''"

text \<open>
  What identifies a node and decides every path expression: identity, tag and
  attributes.  Moving other nodes out of a node changes its children only.
\<close>

definition shape :: "xml \<Rightarrow> nat option \<times> string \<times> (string \<times> string) list" where
  "shape e = (nid e, tag e, attrib e)"

fun src_ids :: "xml list \<Rightarrow> nat list" where
  "src_ids [] = []"
| "src_ids (e # es) = (case nid e of None \<Rightarrow> src_ids es | Some i \<Rightarrow> i # src_ids es)"

text \<open>A parsed document: every element has an identity, and no two share one.\<close>

definition wf_source :: "xml \<Rightarrow> bool" where
  "wf_source t \<longleftrightarrow> distinct (src_ids (nodes t)) \<and> (\<forall>e \<in> set (nodes t). nid e \<noteq> None)"

text \<open>
  The elements that the script moves are surfaces, tables and text blocks.  In a
  document with \<open>tables_outermost\<close> no table lies inside one of them, so that no table
  leaves the source tree inside another node.
\<close>

definition carrier :: "xml \<Rightarrow> bool" where
  "carrier e \<longleftrightarrow> tag e = tei ''surface'' \<or> tag e = tei ''table'' \<or> tag e = tei ''ab''"

definition tables_outermost :: "xml list \<Rightarrow> bool" where
  "tables_outermost es \<longleftrightarrow>
     (\<forall>c \<in> set (nodes_f es). carrier c \<longrightarrow> (\<forall>d \<in> set (descendants c). tag d \<noteq> tei ''table''))"

text \<open>
  All trees of a state, and what holds of every state the script reaches from a parsed
  document \<open>root0\<close>: no identity occurs twice, a node with an identity has the shape of
  a node of the parsed document, and every node still below \<open>root\<close> has an identity.
\<close>

definition forest :: "doc_state \<Rightarrow> xml list" where
  "forest s = kids (root s) @ facsimile s @ div_elem s"

definition state_ok :: "xml \<Rightarrow> doc_state \<Rightarrow> bool" where
  "state_ok root0 s \<longleftrightarrow>
     distinct (src_ids (nodes_f (forest s))) \<and>
     (\<forall>y \<in> set (nodes_f (forest s)). nid y \<noteq> None \<longrightarrow> shape y \<in> shape ` set (descendants root0)) \<and>
     (\<forall>y \<in> set (descendants (root s)). nid y \<noteq> None)"

text \<open>The source tree after the nodes of a list have been taken out of it.\<close>

definition prune_all :: "xml list \<Rightarrow> xml \<Rightarrow> xml" where
  "prune_all L t = fold (\<lambda>x. remove_node (the (nid x))) L t"

section \<open>Files, printed lines and exceptions\<close>

text \<open>
  The script reads and writes files, prints, and may stop with an exception.  The world
  holds the files and the sequence of visible events; a run returns how it ended and
  the world it left.  What the libraries and the operating system decide is a parameter
  of the run: the lxml parser and serialiser, the XSLT processor, and whether a file can
  be opened for writing or removed (with the message of the \<open>OSError\<close> otherwise).
  \<open>IOError\<close> is Python's alias of \<open>OSError\<close>; lxml raises it when a file cannot be
  read, and \<open>XMLSyntaxError\<close> when the file is not well-formed.
\<close>

datatype exn = OSError string | XMLSyntaxError string | XSLTError string

datatype event = Print string | FileWritten string | FileRemoved string

record world =
  files :: "string \<rightharpoonup> string"
  events :: "event list"

datatype status = Completed | SystemExit | Uncaught exn

record env =
  etree_parse :: "(string \<rightharpoonup> string) \<Rightarrow> string \<Rightarrow> exn + xml"
  etree_tostring :: "xml \<Rightarrow> string"
  xslt_transform :: "xml \<Rightarrow> xml \<Rightarrow> exn + xml"
  open_error :: "string \<Rightarrow> string option"
  remove_error :: "string \<Rightarrow> string option"

definition print_line :: "string \<Rightarrow> world \<Rightarrow> world" where
  "print_line msg w = w\<lparr>events := events w @ [Print msg]\<rparr>"

definition parse_xml :: "env \<Rightarrow> string \<Rightarrow> world \<Rightarrow> (exn + xml option) \<times> world" where
  "parse_xml en path w =
     (case etree_parse en (files w) path of
        Inr tree \<Rightarrow> (Inr (Some tree), w)
      | Inl (OSError e) \<Rightarrow> (Inr None, print_line (''Error reading '' @ path @ '': '' @ e) w)
      | Inl ex \<Rightarrow> (Inl ex, w))"

text \<open>\<^verbatim>\<open>with open(path, mode) as f: f.write(data)\<close>, for both modes \<open>'w'\<close> and \<open>'wb'\<close>.\<close>

definition write_file :: "env \<Rightarrow> string \<Rightarrow> string \<Rightarrow> world \<Rightarrow> exn option \<times> world" where
  "write_file en path data w =
     (case open_error en path of
        Some e \<Rightarrow> (Some (OSError e), w)
      | None \<Rightarrow> (None, w\<lparr>files := (files w)(path \<mapsto> data),
                        events := events w @ [FileWritten path]\<rparr>))"

definition warning_line :: "string \<Rightarrow> string" where
  "warning_line path = ''Warning: '' @ path @ '' already exists. It will be overwritten.''"

definition save_xml_to_file :: "env \<Rightarrow> string \<Rightarrow> string \<Rightarrow> world \<Rightarrow> exn option \<times> world" where
  "save_xml_to_file en path xml_string w =
     (let w1 = (if files w path \<noteq> None then print_line (warning_line path) w else w)
      in case write_file en path xml_string w1 of
           (Some ex, w2) \<Rightarrow> (Some ex, w2)
         | (None, w2) \<Rightarrow>
             (None, print_line (''The original XML output has been saved to '' @ path) w2))"

definition transform_xml :: "env \<Rightarrow> (string \<rightharpoonup> string) \<Rightarrow> string \<Rightarrow> xml \<Rightarrow> exn + xml" where
  "transform_xml en fs path xml_tree =
     (case etree_parse en fs path of
        Inl ex \<Rightarrow> Inl ex
      | Inr xslt_tree \<Rightarrow> xslt_transform en xslt_tree xml_tree)"

definition clean_transformed_xml :: "env \<Rightarrow> xml \<Rightarrow> string" where
  "clean_transformed_xml en transformed_tree = lb_fixup (etree_tostring en transformed_tree)"

definition os_remove :: "env \<Rightarrow> string \<Rightarrow> world \<Rightarrow> exn option \<times> world" where
  "os_remove en path w =
     (if files w path = None then (Some (OSError ''No such file or directory''), w)
      else case remove_error en path of
             Some e \<Rightarrow> (Some (OSError e), w)
           | None \<Rightarrow> (None, w\<lparr>files := (files w)(path := None),
                             events := events w @ [FileRemoved path]\<rparr>))"

text \<open>
  The main block, in three parts: lines 171 to 184 (final file and clean-up), lines 164
  to 169 (reparse and transform), and lines 96 to 162.
\<close>

definition write_final :: "env \<Rightarrow> config \<Rightarrow> xml \<Rightarrow> world \<Rightarrow> status \<times> world" where
  "write_final en cfg transformed_tree w =
     (let final_path = transformed_output_path (year_of_volume cfg) (facs_start_range cfg);
          transformed_xml_string = clean_transformed_xml en transformed_tree
      in case write_file en final_path transformed_xml_string w of
           (Some ex, w1) \<Rightarrow> (Uncaught ex, w1)
         | (None, w1) \<Rightarrow>
            (case os_remove en (output_file_path (year_of_volume cfg) (facs_start_range cfg))
                    (print_line (''The transformed XML has been saved to '' @ final_path) w1) of
               (Some ex, w2) \<Rightarrow> (Uncaught ex, w2)
             | (None, w2) \<Rightarrow> (Completed, w2)))"

definition transform_stage :: "env \<Rightarrow> config \<Rightarrow> world \<Rightarrow> status \<times> world" where
  "transform_stage en cfg w =
     (case etree_parse en (files w) (output_file_path (year_of_volume cfg) (facs_start_range cfg)) of
        Inl ex \<Rightarrow> (Uncaught ex, w)
      | Inr original_tree \<Rightarrow>
         (case transform_xml en (files w) (xslt_path cfg) original_tree of
            Inl ex \<Rightarrow> (Uncaught ex, w)
          | Inr transformed_tree \<Rightarrow> write_final en cfg transformed_tree w))"

definition main :: "env \<Rightarrow> config \<Rightarrow> world \<Rightarrow> status \<times> world" where
  "main en cfg w =
     (case parse_xml en (file_path cfg) w of
        (Inl ex, w1) \<Rightarrow> (Uncaught ex, w1)
      | (Inr None, w1) \<Rightarrow> (SystemExit, w1)
      | (Inr (Some root0), w1) \<Rightarrow>
         (let tei_str = etree_tostring en (tei_document cfg root0)
          in case save_xml_to_file en (output_file_path (year_of_volume cfg) (facs_start_range cfg))
                    tei_str w1 of
               (Some ex, w2) \<Rightarrow> (Uncaught ex, w2)
             | (None, w2) \<Rightarrow> transform_stage en cfg w2))"

section \<open>A small document and environment\<close>

text \<open>
  A source document with the surfaces of pages 81 to 83, a table for page 82 and text
  blocks for pages 81 and 83, and an environment in which every library call succeeds:
  a missing file cannot be read, an empty file is not well-formed, any other file
  parses to the document.
\<close>

definition sample_tree :: xml where
  "sample_tree =
     Elem (Some 0) (tei ''TEI'') [] None
       [Elem (Some 1) (tei ''facsimile'') [] None
          [Elem (Some 2) (tei ''surface'') [(xml_id, ''facs_81'')] None [],
           Elem (Some 3) (tei ''surface'') [(xml_id, ''facs_82'')] None [],
           Elem (Some 4) (tei ''surface'') [(xml_id, ''facs_83'')] None []],
        Elem (Some 5) (tei ''text'') [] None
          [Elem (Some 6) (tei ''body'') [] None
             [Elem (Some 7) (tei ''ab'') [(''facs'', ''#facs_81_r1'')] (Some ''first'') [],
              Elem (Some 8) (tei ''table'') [(''facs'', ''#facs_82_t1'')] None [],
              Elem (Some 9) (tei ''ab'') [(''facs'', ''#facs_82_r1'')] (Some ''beside the table'') [],
              Elem (Some 10) (tei ''ab'') [(''facs'', ''#facs_83_r1'')] (Some ''third'') []]]]"

definition sample_env :: env where
  "sample_env =
     \<lparr>etree_parse = (\<lambda>fs path.
         case fs path of
           None \<Rightarrow> Inl (OSError ''failed to load external entity'')
         | Some bytes \<Rightarrow>
             if bytes = [] then Inl (XMLSyntaxError ''Document is empty'') else Inr sample_tree),
      etree_tostring = (\<lambda>t. ''<TEI/>''),
      xslt_transform = (\<lambda>xslt_tree xml_tree. Inr xml_tree),
      open_error = (\<lambda>path. None),
      remove_error = (\<lambda>path. None)\<rparr>"

definition sample_world :: world where
  "sample_world =
     \<lparr>files = [''export_files/file.xml'' \<mapsto> ''<TEI/>'',
               ''xslt/test-stylesheet.xsl'' \<mapsto> ''<stylesheet/>''],
      events = []\<rparr>"

text \<open>
  A source document in which the table of page 82 lies inside the text block of page
  81.
\<close>

definition nested_tree :: xml where
  "nested_tree =
     Elem (Some 0) (tei ''TEI'') [] None
       [Elem (Some 1) (tei ''text'') [] None
          [Elem (Some 2) (tei ''body'') [] None
             [Elem (Some 3) (tei ''ab'') [(''facs'', ''#facs_81_r1'')] (Some ''first'')
                [Elem (Some 4) (tei ''table'') [(''facs'', ''#facs_82_t1'')] None []],
              Elem (Some 5) (tei ''ab'') [(''facs'', ''#facs_82_r1'')] (Some ''second'') []]]]"

text \<open>The script's configuration with the range of pages 81 and 82.\<close>

definition nested_config :: config where
  "nested_config = script_config\<lparr>facs_start_range := \<lparr>start = 81, stop = 83\<rparr>\<rparr>"

text \<open>The script's configuration with an empty range.\<close>

definition empty_config :: config where
  "empty_config = script_config\<lparr>facs_start_range := \<lparr>start = 81, stop = 81\<rparr>\<rparr>"

text \<open>A world in which both output files of the script's own range are already there.\<close>

definition crowded_world :: world where
  "crowded_world =
     \<lparr>files = [''export_files/file.xml'' \<mapsto> ''<TEI/>'',
               ''xslt/test-stylesheet.xsl'' \<mapsto> ''<stylesheet/>'',
               ''output/1758_81-88_before.xml'' \<mapsto> ''old'',
               ''output/1758_081-088.xml'' \<mapsto> ''old''],
      events = []\<rparr>"

section \<open>Properties of the line-break fixup\<close>

lemma bytes_replace_same_aux: "new = old \<Longrightarrow> bytes_replace old new s = s"
proof (induction old new s rule: bytes_replace.induct)
  case (1 old new)
  then show ?case by simp
next
  case (2 old new c cs)
  show ?case
  proof (cases "old = []")
    case True
    with 2 show ?thesis by simp
  next
    case ne: False
    show ?thesis
    proof (cases "take (length old) (c # cs) = old")
      case True
      with ne 2 have "bytes_replace old new (c # cs) = old @ drop (length old) (c # cs)"
        by simp
      also have "\<dots> = take (length old) (c # cs) @ drop (length old) (c # cs)"
        using True by simp
      finally show ?thesis by (simp only: append_take_drop_id)
    next
      case False
      with ne 2 show ?thesis by simp
    qed
  qed
qed

lemma bytes_replace_same: "bytes_replace old old s = s"
  by (rule bytes_replace_same_aux) simp

lemma lb_fixup_eq: "lb_fixup s = bytes_replace ''\<newline><lb'' ''<lb'' s"
  by (simp only: lb_fixup_def bytes_replace_same)

lemma lb_fixup_Nil: "lb_fixup [] = []"
  by (simp add: lb_fixup_eq)

lemma lb_fixup_match: "lb_fixup (''\<newline><lb'' @ r) = ''<lb'' @ lb_fixup r"
  by (simp add: lb_fixup_eq)

lemma take_eq_prefix: "take (length p) s = p \<Longrightarrow> s = p @ drop (length p) s"
  by (metis append_take_drop_id)

lemma take_eq_prefix_ex: "take (length p) s = p \<Longrightarrow> \<exists>r. s = p @ r"
  by (metis append_take_drop_id)

lemma lb_fixup_copy:
  assumes "\<And>r. c # cs \<noteq> ''\<newline><lb'' @ r"
  shows "lb_fixup (c # cs) = c # lb_fixup cs"
proof -
  have "take (length ''\<newline><lb'') (c # cs) \<noteq> ''\<newline><lb''"
    using assms take_eq_prefix by blast
  then show ?thesis
    unfolding lb_fixup_eq by (subst bytes_replace.simps) (simp del: bytes_replace.simps)
qed

lemma lb_fixup_induct [case_names Nil Match Copy]:
  assumes "Q []"
    and "\<And>r. Q r \<Longrightarrow> Q (''\<newline><lb'' @ r)"
    and "\<And>c cs. (\<And>r. c # cs \<noteq> ''\<newline><lb'' @ r) \<Longrightarrow> Q cs \<Longrightarrow> Q (c # cs)"
  shows "Q s"
proof (induction s rule: length_induct)
  case (1 xs)
  show ?case
  proof (cases xs)
    case Nil
    with assms(1) show ?thesis by simp
  next
    case (Cons c cs)
    show ?thesis
    proof (cases "\<exists>r. xs = ''\<newline><lb'' @ r")
      case True
      then obtain r where r: "xs = ''\<newline><lb'' @ r" by blast
      then have "length r < length xs" by simp
      with 1 have "Q r" by blast
      with assms(2) r show ?thesis by blast
    next
      case False
      have "Q cs" using 1 Cons by simp
      with assms(3)[of c cs] False Cons show ?thesis by blast
    qed
  qed
qed


lemma contains_str_Cons: "contains_str cs sub \<Longrightarrow> contains_str (c # cs) sub"
  by simp

lemma contains_str_append: "contains_str s sub \<Longrightarrow> contains_str (p @ s) sub"
  by (induction p) simp_all

lemma lb_fixup_length_le: "length (lb_fixup s) \<le> length s"
proof (induction s rule: lb_fixup_induct)
  case Nil
  show ?case by (simp add: lb_fixup_Nil)
next
  case (Match r)
  then show ?case by (simp only: lb_fixup_match) simp
next
  case (Copy c cs)
  then show ?case by (simp add: lb_fixup_copy)
qed

lemma contains_nl_lb_append:
  "contains_str (''\<newline><lb'' @ r) ''\<newline>\<newline><lb'' \<Longrightarrow> contains_str r ''\<newline>\<newline><lb''"
  by simp

lemma contains_lb_prefix:
  "contains_str (''<lb'' @ t) ''\<newline><lb'' \<Longrightarrow> contains_str t ''\<newline><lb''"
  by simp

lemma lb_fixup_shrinks: "contains_str s ''\<newline><lb'' \<Longrightarrow> length (lb_fixup s) < length s"
proof (induction s rule: lb_fixup_induct)
  case Nil
  then show ?case by simp
next
  case (Match r)
  have "length (lb_fixup r) \<le> length r" by (rule lb_fixup_length_le)
  then show ?case by (simp only: lb_fixup_match) simp
next
  case (Copy c cs)
  have "take (length ''\<newline><lb'') (c # cs) \<noteq> ''\<newline><lb''"
    using Copy(1) take_eq_prefix by blast
  with Copy(3) have "contains_str cs ''\<newline><lb''" by auto
  with Copy show ?case by (simp add: lb_fixup_copy)
qed

lemma lb_fixup_id: "\<not> contains_str s ''\<newline><lb'' \<Longrightarrow> lb_fixup s = s"
proof (induction s rule: lb_fixup_induct)
  case Nil
  show ?case by (simp add: lb_fixup_Nil)
next
  case (Match r)
  then show ?case by simp
next
  case (Copy c cs)
  then show ?case by (simp add: lb_fixup_copy)
qed

text \<open>What the output of the pass can start with.\<close>

lemma lb_fixup_head:
  "lb_fixup s = a # t \<Longrightarrow>
     (\<exists>r. s = ''\<newline><lb'' @ r \<and> a = CHR ''<'' \<and> t = ''lb'' @ lb_fixup r)
   \<or> (\<exists>cs. s = a # cs \<and> (\<forall>r. s \<noteq> ''\<newline><lb'' @ r) \<and> t = lb_fixup cs)"
proof (cases s)
  case Nil
  assume "lb_fixup s = a # t"
  with Nil show ?thesis by (simp add: lb_fixup_Nil)
next
  case (Cons c cs)
  assume e: "lb_fixup s = a # t"
  show ?thesis
  proof (cases "\<exists>r. s = ''\<newline><lb'' @ r")
    case True
    then obtain r where r: "s = ''\<newline><lb'' @ r" by blast
    with e have "''<lb'' @ lb_fixup r = a # t" by (simp only: lb_fixup_match)
    with r show ?thesis by simp
  next
    case False
    then have "lb_fixup (c # cs) = c # lb_fixup cs" using Cons by (intro lb_fixup_copy) blast
    with e Cons False show ?thesis by simp
  qed
qed

lemma lb_fixup_starts_lb:
  assumes "lb_fixup s = ''<lb'' @ t"
  shows "(\<exists>r. s = ''\<newline><lb'' @ r) \<or> (\<exists>r. s = ''<lb'' @ r)"
proof (cases "\<exists>r. s = ''\<newline><lb'' @ r")
  case True
  then show ?thesis by blast
next
  case False
  from assms have "lb_fixup s = CHR ''<'' # (''lb'' @ t)" by simp
  from lb_fixup_head[OF this] False obtain cs where
    cs: "s = CHR ''<'' # cs" "lb_fixup cs = ''lb'' @ t" by auto
  from cs(2) have "lb_fixup cs = CHR ''l'' # (''b'' @ t)" by simp
  from lb_fixup_head[OF this] obtain cs2 where
    cs2: "cs = CHR ''l'' # cs2" "lb_fixup cs2 = ''b'' @ t" by auto
  from cs2(2) have "lb_fixup cs2 = CHR ''b'' # t" by simp
  from lb_fixup_head[OF this] obtain cs3 where
    cs3: "cs2 = CHR ''b'' # cs3" by auto
  from cs cs2 cs3 show ?thesis by simp
qed

lemma lb_fixup_clean:
  "\<not> contains_str s ''\<newline>\<newline><lb'' \<Longrightarrow> \<not> contains_str (lb_fixup s) ''\<newline><lb''"
proof (induction s rule: lb_fixup_induct)
  case Nil
  show ?case by (simp add: lb_fixup_Nil)
next
  case (Match r)
  from Match(2) have "\<not> contains_str r ''\<newline>\<newline><lb''"
    using contains_str_append by blast
  with Match(1) have "\<not> contains_str (lb_fixup r) ''\<newline><lb''" by blast
  then have "\<not> contains_str (''<lb'' @ lb_fixup r) ''\<newline><lb''"
    using contains_lb_prefix by blast
  then show ?case by (simp only: lb_fixup_match not_False_eq_True)
next
  case (Copy c cs)
  from Copy(3) have nc: "\<not> contains_str cs ''\<newline>\<newline><lb''" by simp
  with Copy(2) have ih: "\<not> contains_str (lb_fixup cs) ''\<newline><lb''" by blast
  have "take (length ''\<newline><lb'') (c # lb_fixup cs) \<noteq> ''\<newline><lb''"
  proof
    assume "take (length ''\<newline><lb'') (c # lb_fixup cs) = ''\<newline><lb''"
    from take_eq_prefix_ex[OF this] obtain t where "c # lb_fixup cs = ''\<newline><lb'' @ t"
      by blast
    then have t: "c = CHR ''\<newline>''" "lb_fixup cs = ''<lb'' @ t" by simp_all
    from lb_fixup_starts_lb[OF t(2)] show False
    proof
      assume "\<exists>r. cs = ''\<newline><lb'' @ r"
      then obtain r where "cs = ''\<newline><lb'' @ r" by blast
      with t(1) have "take (length ''\<newline>\<newline><lb'') (c # cs) = ''\<newline>\<newline><lb''" by simp
      with Copy(3) show False by simp
    next
      assume "\<exists>r. cs = ''<lb'' @ r"
      then obtain r where "cs = ''<lb'' @ r" by blast
      with t(1) have "c # cs = ''\<newline><lb'' @ r" by simp
      with Copy(1) show False by blast
    qed
  qed
  with ih have "\<not> contains_str (c # lb_fixup cs) ''\<newline><lb''" by simp
  with Copy(1) show ?case by (simp add: lb_fixup_copy)
qed

lemma lb_fixup_dirty:
  "contains_str s ''\<newline>\<newline><lb'' \<Longrightarrow> contains_str (lb_fixup s) ''\<newline><lb''"
proof (induction s rule: lb_fixup_induct)
  case Nil
  then show ?case by simp
next
  case (Match r)
  from Match(2) have "contains_str r ''\<newline>\<newline><lb''" by (rule contains_nl_lb_append)
  with Match(1) have "contains_str (lb_fixup r) ''\<newline><lb''" by blast
  then have "contains_str (''<lb'' @ lb_fixup r) ''\<newline><lb''" by (rule contains_str_append)
  then show ?case by (simp only: lb_fixup_match)
next
  case (Copy c cs)
  show ?case
  proof (cases "take (length ''\<newline>\<newline><lb'') (c # cs) = ''\<newline>\<newline><lb''")
    case True
    from take_eq_prefix_ex[OF this] obtain r where "c # cs = ''\<newline>\<newline><lb'' @ r"
      by blast
    then have r: "c = CHR ''\<newline>''" "cs = ''\<newline><lb'' @ r"
      by simp_all
    have "lb_fixup cs = ''<lb'' @ lb_fixup r" unfolding r(2) by (rule lb_fixup_match)
    with r(1) Copy(1) show ?thesis by (simp add: lb_fixup_copy)
  next
    case False
    with Copy(3) have "contains_str cs ''\<newline>\<newline><lb''" by auto
    with Copy(2) have "contains_str (lb_fixup cs) ''\<newline><lb''" by blast
    with Copy(1) show ?thesis by (simp add: lb_fixup_copy)
  qed
qed

text \<open>
  Claim C4, as amended.  Applying the fixup twice gives the same bytes as applying it once
  exactly for the inputs in which no \<open><lb\<close> is preceded by two line breaks in a row: the
  pass takes one line break away before each \<open><lb\<close> and does not look at its own output
  again.
\<close>

theorem lb_fixup_idempotent_iff:
  "lb_fixup (lb_fixup s) = lb_fixup s \<longleftrightarrow> \<not> contains_str s ''\<newline>\<newline><lb''"
proof
  assume e: "lb_fixup (lb_fixup s) = lb_fixup s"
  show "\<not> contains_str s ''\<newline>\<newline><lb''"
  proof
    assume "contains_str s ''\<newline>\<newline><lb''"
    then have "contains_str (lb_fixup s) ''\<newline><lb''" by (rule lb_fixup_dirty)
    then have "length (lb_fixup (lb_fixup s)) < length (lb_fixup s)" by (rule lb_fixup_shrinks)
    with e show False by simp
  qed
next
  assume "\<not> contains_str s ''\<newline>\<newline><lb''"
  then have "\<not> contains_str (lb_fixup s) ''\<newline><lb''" by (rule lb_fixup_clean)
  then show "lb_fixup (lb_fixup s) = lb_fixup s" by (rule lb_fixup_id)
qed

theorem lb_fixup_idempotent_iff_witness:
  "\<not> contains_str ''<p>\<newline><lb n=1/>'' ''\<newline>\<newline><lb''
   \<and> lb_fixup (lb_fixup ''<p>\<newline><lb n=1/>'') = lb_fixup ''<p>\<newline><lb n=1/>''"
proof -
  have h: "\<not> contains_str ''<p>\<newline><lb n=1/>'' ''\<newline>\<newline><lb''" by simp
  with lb_fixup_idempotent_iff [of "''<p>\<newline><lb n=1/>''"] show ?thesis by blast
qed

text \<open>
  Claim C4 as stated (idempotent for every input) fails on two line breaks before
  \<open><lb\<close>: the first pass leaves one of them, the second pass removes it.
\<close>

theorem lb_fixup_not_idempotent:
  "lb_fixup (lb_fixup ''\<newline>\<newline><lb'') \<noteq> lb_fixup ''\<newline>\<newline><lb''"
  by (simp add: lb_fixup_eq)

text \<open>
  Claim C3.  The claim wants the line break of \<open>>\<newline><lb \<close> kept.  The first
  \<open>replace\<close> of the pass substitutes that sequence by itself, and the second one then
  removes its line break like any other before \<open><lb\<close>.
\<close>

theorem lb_fixup_flattens_after_gt: "lb_fixup ''>\<newline><lb '' = ''><lb ''"
  by (simp add: lb_fixup_eq)


section \<open>Output paths\<close>

lemma str_nat_small: "n < 10 \<Longrightarrow> str_nat n = [digit_char n]"
  by (subst str_nat.simps) simp

lemma str_nat_large: "\<not> n < 10 \<Longrightarrow> str_nat n = str_nat (n div 10) @ [digit_char (n mod 10)]"
  by (subst str_nat.simps) simp

lemma str_nat_length_1000: "n < 1000 \<Longrightarrow> length (str_nat n) \<le> 3"
proof -
  assume n: "n < 1000"
  show ?thesis
  proof (cases "n < 10")
    case True
    then show ?thesis by (simp add: str_nat_small)
  next
    case False
    show ?thesis
    proof (cases "n div 10 < 10")
      case True
      with False show ?thesis by (simp add: str_nat_large str_nat_small)
    next
      case f2: False
      from n have "n div 10 div 10 < 10" by simp
      with False f2 show ?thesis by (simp add: str_nat_large str_nat_small)
    qed
  qed
qed

lemma format_03d_nonneg:
  assumes "0 \<le> n" "n < 1000"
  shows "length (format_03d n) = 3"
    and "format_03d n = replicate (3 - length (str_int n)) CHR ''0'' @ str_int n"
proof -
  from assms have "nat n < 1000" by simp
  then have l: "length (str_nat (nat n)) \<le> 3" by (rule str_nat_length_1000)
  from assms(1) have e: "str_int n = str_nat (nat n)" "nat \<bar>n\<bar> = nat n" "\<not> n < 0"
    by (simp_all add: str_int_def)
  show "format_03d n = replicate (3 - length (str_int n)) CHR ''0'' @ str_int n"
    using e by (simp add: format_03d_def Let_def)
  then show "length (format_03d n) = 3" using l e by simp
qed

lemma str_int_81: "str_int 81 = ''81''" "str_int 88 = ''88''"
  by (simp_all add: str_int_def str_nat.simps digit_char_def)

lemma format_03d_81: "format_03d 81 = ''081''" "format_03d 88 = ''088''"
  by (simp_all add: format_03d_def str_nat.simps digit_char_def)

text \<open>
  Claim C5.  The intermediate path carries \<open>start-(stop - 1)\<close> for a range of more than one
  page and \<open>start\<close> alone for a range of one page; the final path carries the same
  bounds in the format \<open>03d\<close>, which for a bound from 0 to 999 is the number padded
  with zeros to three digits.  The range from 81 to 89 gives \<open>_81-88_before.xml\<close> and
  \<open>_081-088.xml\<close>.
\<close>

theorem output_paths:
  "(stop r - start r > 1 \<longrightarrow>
      output_file_path year r =
        ''output/'' @ year @ ''_'' @ str_int (start r) @ ''-'' @ str_int (stop r - 1) @ ''_before.xml'' \<and>
      transformed_output_path year r =
        ''output/'' @ year @ ''_'' @ format_03d (start r) @ ''-'' @ format_03d (stop r - 1) @ ''.xml'')
   \<and> (stop r - start r = 1 \<longrightarrow>
      output_file_path year r = ''output/'' @ year @ ''_'' @ str_int (start r) @ ''_before.xml'' \<and>
      transformed_output_path year r = ''output/'' @ year @ ''_'' @ format_03d (start r) @ ''.xml'')
   \<and> (\<forall>n. 0 \<le> n \<and> n < 1000 \<longrightarrow>
         length (format_03d n) = 3 \<and>
         format_03d n = replicate (3 - length (str_int n)) CHR ''0'' @ str_int n)
   \<and> output_file_path year \<lparr>start = 81, stop = 89\<rparr> = ''output/'' @ year @ ''_81-88_before.xml''
   \<and> transformed_output_path year \<lparr>start = 81, stop = 89\<rparr> = ''output/'' @ year @ ''_081-088.xml''"
proof (intro conjI impI allI)
  assume "1 < stop r - start r"
  then show "output_file_path year r =
        ''output/'' @ year @ ''_'' @ str_int (start r) @ ''-'' @ str_int (stop r - 1) @ ''_before.xml''"
    by (simp add: output_file_path_def range_str_def)
next
  assume "1 < stop r - start r"
  then show "transformed_output_path year r =
        ''output/'' @ year @ ''_'' @ format_03d (start r) @ ''-'' @ format_03d (stop r - 1) @ ''.xml''"
    by (simp add: transformed_output_path_def formatted_range_str_def)
next
  assume "stop r - start r = 1"
  then show "output_file_path year r = ''output/'' @ year @ ''_'' @ str_int (start r) @ ''_before.xml''"
    by (simp add: output_file_path_def range_str_def)
next
  assume "stop r - start r = 1"
  then show "transformed_output_path year r = ''output/'' @ year @ ''_'' @ format_03d (start r) @ ''.xml''"
    by (simp add: transformed_output_path_def formatted_range_str_def)
next
  fix n :: int assume "0 \<le> n \<and> n < 1000"
  then show "length (format_03d n) = 3" using format_03d_nonneg(1) by blast
next
  fix n :: int assume "0 \<le> n \<and> n < 1000"
  then show "format_03d n = replicate (3 - length (str_int n)) CHR ''0'' @ str_int n"
    using format_03d_nonneg(2) by blast
next
  show "output_file_path year \<lparr>start = 81, stop = 89\<rparr> = ''output/'' @ year @ ''_81-88_before.xml''"
    by (simp add: output_file_path_def range_str_def str_int_81)
next
  show "transformed_output_path year \<lparr>start = 81, stop = 89\<rparr> = ''output/'' @ year @ ''_081-088.xml''"
    by (simp add: transformed_output_path_def formatted_range_str_def format_03d_81)
qed

theorem output_paths_witness:
  "stop \<lparr>start = 81, stop = 89\<rparr> - start \<lparr>start = 81, stop = 89\<rparr> > 1
   \<and> output_file_path ''1758'' \<lparr>start = 81, stop = 89\<rparr> = ''output/1758_81-88_before.xml''
   \<and> transformed_output_path ''1758'' \<lparr>start = 81, stop = 89\<rparr> = ''output/1758_081-088.xml''
   \<and> stop \<lparr>start = 7, stop = 8\<rparr> - start \<lparr>start = 7, stop = 8\<rparr> = 1
   \<and> output_file_path ''1758'' \<lparr>start = 7, stop = 8\<rparr> = ''output/1758_7_before.xml''
   \<and> transformed_output_path ''1758'' \<lparr>start = 7, stop = 8\<rparr> = ''output/1758_007.xml''
   \<and> (0::int) \<le> 7 \<and> (7::int) < 1000 \<and> length (format_03d 7) = 3"
proof -
  have s7: "str_int 7 = ''7''" "format_03d 7 = ''007''"
    by (simp_all add: str_int_def format_03d_def str_nat.simps digit_char_def eval_nat_numeral)
  show ?thesis
    using output_paths [of "\<lparr>start = 81, stop = 89\<rparr>" "''1758''"]
          output_paths [of "\<lparr>start = 7, stop = 8\<rparr>" "''1758''"]
    by (simp add: s7)
qed

section \<open>The run: reading, writing and removing\<close>

lemma parse_xml_ok:
  "etree_parse en (files w) path = Inr tree \<Longrightarrow> parse_xml en path w = (Inr (Some tree), w)"
  by (simp add: parse_xml_def)

lemma parse_xml_oserror:
  "etree_parse en (files w) path = Inl (OSError e) \<Longrightarrow>
   parse_xml en path w = (Inr None, print_line (''Error reading '' @ path @ '': '' @ e) w)"
  by (simp add: parse_xml_def)

lemma parse_xml_other:
  "etree_parse en (files w) path = Inl ex \<Longrightarrow> \<forall>e. ex \<noteq> OSError e \<Longrightarrow>
   parse_xml en path w = (Inl ex, w)"
  by (cases ex) (simp_all add: parse_xml_def)

lemma save_xml_to_file_ok:
  "open_error en path = None \<Longrightarrow>
   save_xml_to_file en path xml_string w =
     (None, \<lparr>files = (files w)(path \<mapsto> xml_string),
             events = events w @ (if files w path \<noteq> None then [Print (warning_line path)] else [])
                        @ [FileWritten path,
                           Print (''The original XML output has been saved to '' @ path)]\<rparr>)"
  by (cases w) (simp add: save_xml_to_file_def write_file_def print_line_def)

lemma write_final_written:
  assumes "open_error en (transformed_output_path (year_of_volume cfg) (facs_start_range cfg)) = None"
  shows "write_final en cfg transformed_tree w =
     (case os_remove en (output_file_path (year_of_volume cfg) (facs_start_range cfg))
             \<lparr>files = (files w)(transformed_output_path (year_of_volume cfg) (facs_start_range cfg)
                                  \<mapsto> lb_fixup (etree_tostring en transformed_tree)),
              events = events w @
                [FileWritten (transformed_output_path (year_of_volume cfg) (facs_start_range cfg)),
                 Print (''The transformed XML has been saved to '' @
                        transformed_output_path (year_of_volume cfg) (facs_start_range cfg))]\<rparr> of
        (Some ex, w2) \<Rightarrow> (Uncaught ex, w2)
      | (None, w2) \<Rightarrow> (Completed, w2))"
  using assms
  by (cases w)
     (simp add: write_final_def write_file_def print_line_def clean_transformed_xml_def Let_def)

lemma main_until_final:
  assumes "etree_parse en (files w) (file_path cfg) = Inr src_root"
    and "out = output_file_path (year_of_volume cfg) (facs_start_range cfg)"
    and "tei_str = etree_tostring en (tei_document cfg src_root)"
    and "open_error en out = None"
    and "etree_parse en ((files w)(out \<mapsto> tei_str)) out = Inr original_tree"
    and "transform_xml en ((files w)(out \<mapsto> tei_str)) (xslt_path cfg) original_tree = Inr transformed_tree"
  shows "main en cfg w =
     write_final en cfg transformed_tree
       \<lparr>files = (files w)(out \<mapsto> tei_str),
        events = events w @ (if files w out \<noteq> None then [Print (warning_line out)] else [])
                   @ [FileWritten out, Print (''The original XML output has been saved to '' @ out)]\<rparr>"
proof -
  have "main en cfg w =
      (case save_xml_to_file en out tei_str w of
         (Some ex, w2) \<Rightarrow> (Uncaught ex, w2)
       | (None, w2) \<Rightarrow> transform_stage en cfg w2)"
    using assms(1,2,3) by (simp add: main_def parse_xml_ok Let_def)
  also have "\<dots> = transform_stage en cfg
       \<lparr>files = (files w)(out \<mapsto> tei_str),
        events = events w @ (if files w out \<noteq> None then [Print (warning_line out)] else [])
                   @ [FileWritten out, Print (''The original XML output has been saved to '' @ out)]\<rparr>"
    by (simp only: save_xml_to_file_ok[OF assms(4)] prod.case option.case)
  also have "\<dots> = write_final en cfg transformed_tree
       \<lparr>files = (files w)(out \<mapsto> tei_str),
        events = events w @ (if files w out \<noteq> None then [Print (warning_line out)] else [])
                   @ [FileWritten out, Print (''The original XML output has been saved to '' @ out)]\<rparr>"
    using assms(2,5,6) by (simp add: transform_stage_def)
  finally show ?thesis .
qed

lemma script_paths:
  "output_file_path (year_of_volume script_config) (facs_start_range script_config) = ''output/1758_81-88_before.xml''"
  "transformed_output_path (year_of_volume script_config) (facs_start_range script_config) = ''output/1758_081-088.xml''"
  "file_path script_config = ''export_files/file.xml''"
  "xslt_path script_config = ''xslt/test-stylesheet.xsl''"
  by (simp_all add: script_config_def output_file_path_def range_str_def str_int_81
        transformed_output_path_def formatted_range_str_def format_03d_81)

text \<open>
  Claim C8.  When lxml cannot read the input file (an \<open>IOError\<close>), \<open>parse_xml\<close> prints
  the error and returns \<open>None\<close>, and the script exits at once: the files are as they
  were and the printed error is the only event.
\<close>

theorem read_failure_exits:
  assumes "etree_parse en (files w) (file_path cfg) = Inl (OSError e)"
  shows "fst (parse_xml en (file_path cfg) w) = Inr None
       \<and> main en cfg w =
           (SystemExit,
            \<lparr>files = files w,
             events = events w @ [Print (''Error reading '' @ file_path cfg @ '': '' @ e)]\<rparr>)"
  using assms by (cases w) (simp add: main_def parse_xml_oserror print_line_def)

theorem read_failure_exits_witness:
  "etree_parse sample_env (files \<lparr>files = Map.empty, events = []\<rparr>) (file_path script_config)
     = Inl (OSError ''failed to load external entity'')
   \<and> main sample_env script_config \<lparr>files = Map.empty, events = []\<rparr> =
       (SystemExit,
        \<lparr>files = Map.empty,
         events = [Print ''Error reading export_files/file.xml: failed to load external entity'']\<rparr>)"
proof -
  have h: "etree_parse sample_env (files \<lparr>files = Map.empty, events = []\<rparr>) (file_path script_config)
     = Inl (OSError ''failed to load external entity'')"
    by (simp add: sample_env_def)
  from read_failure_exits [OF h] h show ?thesis by (simp add: script_paths)
qed

text \<open>
  Claim C9.  \<open>parse_xml\<close> returns \<open>None\<close> exactly when the parser raised an \<open>IOError\<close>.
  An \<open>XMLSyntaxError\<close> (a file that is there but not well-formed) is not caught: it
  leaves \<open>parse_xml\<close> and ends the run, with nothing printed and nothing written.
\<close>

theorem parse_xml_none_only_on_ioerror:
  "(fst (parse_xml en (file_path cfg) w) = Inr None \<longleftrightarrow>
      (\<exists>e. etree_parse en (files w) (file_path cfg) = Inl (OSError e)))
   \<and> (\<forall>e. etree_parse en (files w) (file_path cfg) = Inl (XMLSyntaxError e) \<longrightarrow>
         parse_xml en (file_path cfg) w = (Inl (XMLSyntaxError e), w)
       \<and> main en cfg w = (Uncaught (XMLSyntaxError e), w))"
proof (intro conjI allI impI)
  show "fst (parse_xml en (file_path cfg) w) = Inr None \<longleftrightarrow>
      (\<exists>e. etree_parse en (files w) (file_path cfg) = Inl (OSError e))"
    by (auto simp: parse_xml_def split: sum.splits exn.splits)
next
  fix e assume "etree_parse en (files w) (file_path cfg) = Inl (XMLSyntaxError e)"
  then show "parse_xml en (file_path cfg) w = (Inl (XMLSyntaxError e), w)"
    by (simp add: parse_xml_def)
next
  fix e assume "etree_parse en (files w) (file_path cfg) = Inl (XMLSyntaxError e)"
  then show "main en cfg w = (Uncaught (XMLSyntaxError e), w)"
    by (simp add: main_def parse_xml_def)
qed

theorem parse_xml_none_only_on_ioerror_witness:
  "etree_parse sample_env (files \<lparr>files = [''export_files/file.xml'' \<mapsto> ''''], events = []\<rparr>)
       (file_path script_config) = Inl (XMLSyntaxError ''Document is empty'')
   \<and> fst (parse_xml sample_env (file_path script_config)
            \<lparr>files = [''export_files/file.xml'' \<mapsto> ''''], events = []\<rparr>) \<noteq> Inr None
   \<and> main sample_env script_config \<lparr>files = [''export_files/file.xml'' \<mapsto> ''''], events = []\<rparr> =
       (Uncaught (XMLSyntaxError ''Document is empty''),
        \<lparr>files = [''export_files/file.xml'' \<mapsto> ''''], events = []\<rparr>)"
proof -
  have h: "etree_parse sample_env (files \<lparr>files = [''export_files/file.xml'' \<mapsto> ''''], events = []\<rparr>)
       (file_path script_config) = Inl (XMLSyntaxError ''Document is empty'')"
    by (simp add: sample_env_def script_paths)
  from parse_xml_none_only_on_ioerror
         [of sample_env script_config "\<lparr>files = [''export_files/file.xml'' \<mapsto> ''''], events = []\<rparr>"] h
  show ?thesis by simp
qed

lemma os_remove_fails:
  "files w path \<noteq> None \<Longrightarrow> remove_error en path = Some e \<Longrightarrow>
   os_remove en path w = (Some (OSError e), w)"
  by (auto simp: os_remove_def)

lemma os_remove_ok:
  "files w path \<noteq> None \<Longrightarrow> remove_error en path = None \<Longrightarrow>
   os_remove en path w =
     (None, \<lparr>files = (files w)(path := None), events = events w @ [FileRemoved path]\<rparr>)"
  by (cases w) (auto simp: os_remove_def)

text \<open>
  Claim C6, as amended.  When every step up to the final write succeeds and the
  intermediate file cannot be removed, the \<open>OSError\<close> of \<open>os.remove\<close> is not caught: the
  run ends with it.  The final file holds the cleaned bytes, and nothing is printed
  after the line that reports the final file; there is no warning.
\<close>

theorem remove_failure_uncaught:
  assumes "etree_parse en (files w) (file_path cfg) = Inr src_root"
    and "out = output_file_path (year_of_volume cfg) (facs_start_range cfg)"
    and "fin = transformed_output_path (year_of_volume cfg) (facs_start_range cfg)"
    and "tei_str = etree_tostring en (tei_document cfg src_root)"
    and "open_error en out = None"
    and "etree_parse en ((files w)(out \<mapsto> tei_str)) out = Inr original_tree"
    and "transform_xml en ((files w)(out \<mapsto> tei_str)) (xslt_path cfg) original_tree = Inr transformed_tree"
    and "open_error en fin = None"
    and "remove_error en out = Some e"
  shows "main en cfg w =
     (Uncaught (OSError e),
      \<lparr>files = (files w)(out \<mapsto> tei_str, fin \<mapsto> lb_fixup (etree_tostring en transformed_tree)),
       events = events w @ (if files w out \<noteq> None then [Print (warning_line out)] else [])
                  @ [FileWritten out, Print (''The original XML output has been saved to '' @ out),
                     FileWritten fin, Print (''The transformed XML has been saved to '' @ fin)]\<rparr>)"
proof -
  let ?w2 = "\<lparr>files = (files w)(out \<mapsto> tei_str),
        events = events w @ (if files w out \<noteq> None then [Print (warning_line out)] else [])
                   @ [FileWritten out, Print (''The original XML output has been saved to '' @ out)]\<rparr>"
  let ?w3 = "\<lparr>files = (files ?w2)(fin \<mapsto> lb_fixup (etree_tostring en transformed_tree)),
        events = events ?w2 @ [FileWritten fin, Print (''The transformed XML has been saved to '' @ fin)]\<rparr>"
  have "main en cfg w = write_final en cfg transformed_tree ?w2"
    by (rule main_until_final [OF assms(1,2,4,5,6,7)])
  also have "\<dots> = (case os_remove en out ?w3 of
        (Some ex, w4) \<Rightarrow> (Uncaught ex, w4) | (None, w4) \<Rightarrow> (Completed, w4))"
    using assms(8) unfolding assms(2,3) by (rule write_final_written)
  also have "os_remove en out ?w3 = (Some (OSError e), ?w3)"
    using assms(9) by (intro os_remove_fails) simp_all
  finally show ?thesis by simp
qed

lemma sample_env_facts:
  "etree_parse sample_env (files sample_world) ''export_files/file.xml'' = Inr sample_tree"
  "open_error sample_env p = None"
  "etree_tostring sample_env t = ''<TEI/>''"
  "etree_parse sample_env
     ((files sample_world)(''output/1758_81-88_before.xml'' \<mapsto> ''<TEI/>''))
     ''output/1758_81-88_before.xml'' = Inr sample_tree"
  "transform_xml (sample_env\<lparr>remove_error := r\<rparr>)
     ((files sample_world)(''output/1758_81-88_before.xml'' \<mapsto> ''<TEI/>''))
     ''xslt/test-stylesheet.xsl'' sample_tree = Inr sample_tree"
  by (simp_all add: sample_env_def sample_world_def transform_xml_def)

theorem remove_failure_uncaught_witness:
  "remove_error (sample_env\<lparr>remove_error := (\<lambda>p. Some ''Permission denied'')\<rparr>)
       ''output/1758_81-88_before.xml'' = Some ''Permission denied''
   \<and> main (sample_env\<lparr>remove_error := (\<lambda>p. Some ''Permission denied'')\<rparr>) script_config sample_world =
     (Uncaught (OSError ''Permission denied''),
      \<lparr>files = (files sample_world)(''output/1758_81-88_before.xml'' \<mapsto> ''<TEI/>'',
                                     ''output/1758_081-088.xml'' \<mapsto> ''<TEI/>''),
       events = [FileWritten ''output/1758_81-88_before.xml'',
                 Print ''The original XML output has been saved to output/1758_81-88_before.xml'',
                 FileWritten ''output/1758_081-088.xml'',
                 Print ''The transformed XML has been saved to output/1758_081-088.xml'']\<rparr>)"
proof -
  let ?en = "sample_env\<lparr>remove_error := (\<lambda>p. Some ''Permission denied'')\<rparr>"
  have fx: "lb_fixup ''<TEI/>'' = ''<TEI/>''" by (simp add: lb_fixup_eq)
  have nf: "files sample_world ''output/1758_81-88_before.xml'' = None" "events sample_world = []"
    by (simp_all add: sample_world_def)
  have "main ?en script_config sample_world =
     (Uncaught (OSError ''Permission denied''),
      \<lparr>files = (files sample_world)(''output/1758_81-88_before.xml'' \<mapsto> ''<TEI/>'',
           ''output/1758_081-088.xml'' \<mapsto> lb_fixup (etree_tostring ?en sample_tree)),
       events = events sample_world @
          (if files sample_world ''output/1758_81-88_before.xml'' \<noteq> None
           then [Print (warning_line ''output/1758_81-88_before.xml'')] else [])
          @ [FileWritten ''output/1758_81-88_before.xml'',
             Print (''The original XML output has been saved to '' @ ''output/1758_81-88_before.xml''),
             FileWritten ''output/1758_081-088.xml'',
             Print (''The transformed XML has been saved to '' @ ''output/1758_081-088.xml'')]\<rparr>)"
    by (rule remove_failure_uncaught [where src_root = sample_tree and original_tree = sample_tree])
       (simp_all add: sample_env_facts script_paths)
  then show ?thesis by (simp add: sample_env_facts fx nf)
qed

text \<open>
  Claim C6 as stated (the failure is not fatal and is reported as a warning) fails in
  the sample environment when removal is refused: the run ends with the exception and
  prints no warning.
\<close>

theorem remove_failure_not_warned:
  "fst (main (sample_env\<lparr>remove_error := (\<lambda>p. Some ''Permission denied'')\<rparr>) script_config sample_world)
     = Uncaught (OSError ''Permission denied'')
   \<and> events (snd (main (sample_env\<lparr>remove_error := (\<lambda>p. Some ''Permission denied'')\<rparr>)
                      script_config sample_world)) =
       [FileWritten ''output/1758_81-88_before.xml'',
        Print ''The original XML output has been saved to output/1758_81-88_before.xml'',
        FileWritten ''output/1758_081-088.xml'',
        Print ''The transformed XML has been saved to output/1758_081-088.xml'']"
proof -
  let ?en = "sample_env\<lparr>remove_error := (\<lambda>p. Some ''Permission denied'')\<rparr>"
  let ?w2 = "\<lparr>files = (files sample_world)(''output/1758_81-88_before.xml'' \<mapsto> ''<TEI/>''),
        events = events sample_world @
          (if files sample_world ''output/1758_81-88_before.xml'' \<noteq> None
           then [Print (warning_line ''output/1758_81-88_before.xml'')] else [])
          @ [FileWritten ''output/1758_81-88_before.xml'',
             Print (''The original XML output has been saved to '' @ ''output/1758_81-88_before.xml'')]\<rparr>"
  have m: "main ?en script_config sample_world = write_final ?en script_config sample_tree ?w2"
    by (rule main_until_final [where src_root = sample_tree and original_tree = sample_tree])
       (simp_all add: sample_env_facts script_paths)
  show ?thesis
    unfolding m
    by (simp add: write_final_written sample_env_facts script_paths os_remove_def sample_world_def
          lb_fixup_eq)
qed

text \<open>
  Claim C7.  Both output files exist before the run.  The intermediate write, through
  \<open>save_xml_to_file\<close>, prints its warning first; the final write of lines 178 and 179
  replaces the old file with no warning.
\<close>

theorem final_overwrite_not_warned:
  "files crowded_world ''output/1758_081-088.xml'' = Some ''old''
   \<and> fst (main sample_env script_config crowded_world) = Completed
   \<and> files (snd (main sample_env script_config crowded_world)) ''output/1758_081-088.xml'' = Some ''<TEI/>''
   \<and> events (snd (main sample_env script_config crowded_world)) =
       [Print ''Warning: output/1758_81-88_before.xml already exists. It will be overwritten.'',
        FileWritten ''output/1758_81-88_before.xml'',
        Print ''The original XML output has been saved to output/1758_81-88_before.xml'',
        FileWritten ''output/1758_081-088.xml'',
        Print ''The transformed XML has been saved to output/1758_081-088.xml'',
        FileRemoved ''output/1758_81-88_before.xml'']"
proof -
  let ?w2 = "\<lparr>files = (files crowded_world)(''output/1758_81-88_before.xml'' \<mapsto> ''<TEI/>''),
        events = events crowded_world @
          (if files crowded_world ''output/1758_81-88_before.xml'' \<noteq> None
           then [Print (warning_line ''output/1758_81-88_before.xml'')] else [])
          @ [FileWritten ''output/1758_81-88_before.xml'',
             Print (''The original XML output has been saved to '' @ ''output/1758_81-88_before.xml'')]\<rparr>"
  have m: "main sample_env script_config crowded_world = write_final sample_env script_config sample_tree ?w2"
    by (rule main_until_final [where src_root = sample_tree and original_tree = sample_tree])
       (simp_all add: sample_env_def crowded_world_def script_paths transform_xml_def)
  show ?thesis
    unfolding m
    by (simp add: write_final_written script_paths os_remove_def crowded_world_def sample_env_def
          lb_fixup_eq warning_line_def)
qed

section \<open>Moving nodes: what every reachable state satisfies\<close>

lemma nodes_f_append [simp]: "nodes_f (a @ b) = nodes_f a @ nodes_f b"
  by (induction a) auto

lemma remove_forest_append [simp]:
  "remove_forest i (a @ b) = remove_forest i a @ remove_forest i b"
  by (induction a) auto

lemma src_ids_append [simp]: "src_ids (a @ b) = src_ids a @ src_ids b"
  by (induction a) (auto split: option.splits)

lemma set_src_ids: "i \<in> set (src_ids ns) \<longleftrightarrow> (\<exists>e \<in> set ns. nid e = Some i)"
  by (induction ns) (auto split: option.splits)

lemma nodes_unfold: "nodes t = t # nodes_f (kids t)"
  by (cases t) simp

lemma nodes_self: "t \<in> set (nodes t)"
  by (simp add: nodes_unfold)

lemma own_id_in_nodes: "nid k = Some i \<Longrightarrow> i \<in> set (src_ids (nodes k))"
  by (auto simp: set_src_ids nodes_self)

lemma nodes_closed:
  "x \<in> set (nodes t) \<Longrightarrow> set (nodes x) \<subseteq> set (nodes t)"
  "x \<in> set (nodes_f ts) \<Longrightarrow> set (nodes x) \<subseteq> set (nodes_f ts)"
  by (induction t and ts arbitrary: x and x rule: nodes_nodes_f.induct) auto

lemma shape_remove_node [simp]: "shape (remove_node i t) = shape t"
  by (cases t) (simp add: shape_def)

lemma sel_remove_node [simp]:
  "nid (remove_node i t) = nid t" "tag (remove_node i t) = tag t"
  "attrib (remove_node i t) = attrib t"
  by (cases t; simp)+

lemma kids_remove_node [simp]: "kids (remove_node i t) = remove_forest i (kids t)"
  by (cases t) simp

lemma pruned_nodes:
  "c' \<in> set (nodes (remove_node i t)) \<Longrightarrow> \<exists>c \<in> set (nodes t). c' = remove_node i c"
  "c' \<in> set (nodes_f (remove_forest i ts)) \<Longrightarrow> \<exists>c \<in> set (nodes_f ts). c' = remove_node i c"
proof (induction i t and i ts arbitrary: c' and c' rule: remove_node_remove_forest.induct)
  case (1 i j t a x ks)
  then show ?case by auto
next
  case (2 i)
  then show ?case by simp
next
  case (3 i k ks)
  then show ?case by (auto split: if_splits)
qed

lemma shapes_remove_forest:
  "shape ` set (nodes_f (remove_forest i ts)) \<subseteq> shape ` set (nodes_f ts)"
proof
  fix a assume "a \<in> shape ` set (nodes_f (remove_forest i ts))"
  then obtain c' where c': "c' \<in> set (nodes_f (remove_forest i ts))" "a = shape c'" by blast
  from pruned_nodes(2)[OF c'(1)] obtain c where "c \<in> set (nodes_f ts)" "c' = remove_node i c" by blast
  with c'(2) show "a \<in> shape ` set (nodes_f ts)" by simp
qed

lemma find_by_id_None: "find_by_id i ns = None \<longleftrightarrow> i \<notin> set (src_ids ns)"
  by (auto simp: find_by_id_def find_None_iff set_src_ids)

lemma find_by_id_Some: "find_by_id i ns = Some y \<Longrightarrow> y \<in> set ns \<and> nid y = Some i"
  by (auto simp: find_by_id_def find_Some_iff)

lemma find_by_id_present: "find_by_id i ns = Some y \<Longrightarrow> i \<in> set (src_ids ns)"
  using find_by_id_None[of i ns] by simp

lemma find_by_id_append:
  "find_by_id i (a @ b) = (case find_by_id i a of Some y \<Rightarrow> Some y | None \<Rightarrow> find_by_id i b)"
  by (induction a) (auto simp: find_by_id_def)

lemma find_by_id_Cons:
  "find_by_id i (e # es) = (if nid e = Some i then Some e else find_by_id i es)"
  by (simp add: find_by_id_def)

lemma remove_absent:
  "i \<notin> set (src_ids (nodes t)) \<Longrightarrow> remove_node i t = t"
  "i \<notin> set (src_ids (nodes_f ts)) \<Longrightarrow> remove_forest i ts = ts"
  by (induction i t and i ts rule: remove_node_remove_forest.induct)
     (auto split: option.splits dest: own_id_in_nodes)

lemma src_ids_node: "src_ids (nodes t) = (case nid t of None \<Rightarrow> [] | Some j \<Rightarrow> [j]) @ src_ids (nodes_f (kids t))"
  by (cases t) (simp split: option.splits)

lemma detach_ids:
  "distinct (src_ids (nodes_f (kids t))) \<Longrightarrow> find_by_id i (nodes_f (kids t)) = Some y \<Longrightarrow>
     mset (src_ids (nodes_f (remove_forest i (kids t)))) + mset (src_ids (nodes y))
       = mset (src_ids (nodes_f (kids t)))"
  "distinct (src_ids (nodes_f ts)) \<Longrightarrow> find_by_id i (nodes_f ts) = Some y \<Longrightarrow>
     mset (src_ids (nodes_f (remove_forest i ts))) + mset (src_ids (nodes y))
       = mset (src_ids (nodes_f ts))"
proof (induction i t and i ts arbitrary: y and y rule: remove_node_remove_forest.induct)
  case (1 i j t a x ks)
  then show ?case by simp
next
  case (2 i)
  then show ?case by (simp add: find_by_id_def)
next
  case (3 i k ks)
  from "3.prems"(1) have d: "distinct (src_ids (nodes k))" "distinct (src_ids (nodes_f ks))"
    "set (src_ids (nodes k)) \<inter> set (src_ids (nodes_f ks)) = {}"
    by simp_all
  show ?case
  proof (cases "nid k = Some i")
    case True
    then have "i \<in> set (src_ids (nodes k))" by (rule own_id_in_nodes)
    with d(3) have "i \<notin> set (src_ids (nodes_f ks))" by blast
    then have r: "remove_forest i ks = ks" by (rule remove_absent)
    from True "3.prems"(2) have "y = k"
      by (simp add: nodes_unfold[of k] find_by_id_Cons)
    with True r show ?thesis by simp
  next
    case False
    then have f: "find_by_id i (nodes k) = find_by_id i (nodes_f (kids k))"
      by (simp add: nodes_unfold[of k] find_by_id_Cons)
    from d(1) have dk: "distinct (src_ids (nodes_f (kids k)))"
      by (simp add: src_ids_node split: option.splits)
    show ?thesis
    proof (cases "find_by_id i (nodes_f (kids k))")
      case None
      then have "i \<notin> set (src_ids (nodes_f (kids k)))" by (simp add: find_by_id_None)
      with False have "i \<notin> set (src_ids (nodes k))"
        by (auto simp: src_ids_node split: option.splits)
      then have rk: "remove_node i k = k" by (rule remove_absent)
      from None f "3.prems"(2) have "find_by_id i (nodes_f ks) = Some y"
        by (simp add: find_by_id_append)
      with "3.IH"(3)[OF False d(2)] have
        "mset (src_ids (nodes_f (remove_forest i ks))) + mset (src_ids (nodes y)) = mset (src_ids (nodes_f ks))" .
      with False rk show ?thesis by simp
    next
      case (Some z)
      with f "3.prems"(2) have yz: "y = z" by (simp add: find_by_id_append)
      from Some have "i \<in> set (src_ids (nodes_f (kids k)))"
        by (rule find_by_id_present)
      then have "i \<in> set (src_ids (nodes k))" by (simp add: src_ids_node split: option.splits)
      with d(3) have "i \<notin> set (src_ids (nodes_f ks))" by blast
      then have r: "remove_forest i ks = ks" by (rule remove_absent)
      from "3.IH"(2)[OF False dk] Some yz have
        "mset (src_ids (nodes_f (remove_forest i (kids k)))) + mset (src_ids (nodes y)) = mset (src_ids (nodes_f (kids k)))"
        by simp
      then have "mset (src_ids (nodes (remove_node i k))) + mset (src_ids (nodes y)) = mset (src_ids (nodes k))"
        by (simp add: src_ids_node[of k] src_ids_node[of "remove_node i k"] split: option.splits)
      with False r show ?thesis by simp
    qed
  qed
qed

lemma detach_found:
  assumes "nid x = Some i" "find_by_id i (nodes_f (forest s)) = Some y"
  shows "detach x s =
     (y, s\<lparr>root := remove_node i (root s),
           facsimile := remove_forest i (facsimile s),
           div_elem := remove_forest i (div_elem s)\<rparr>)"
  using assms by (simp add: detach_def forest_def descendants_def)

lemma forest_pruned:
  "forest (s\<lparr>root := remove_node i (root s),
           facsimile := remove_forest i (facsimile s),
           div_elem := remove_forest i (div_elem s)\<rparr>) = remove_forest i (forest s)"
  by (simp add: forest_def)

lemma pruned_shapes_in:
  assumes "\<forall>y \<in> set (nodes_f F). nid y \<noteq> None \<longrightarrow> shape y \<in> S"
    and "c \<in> set (nodes_f (remove_forest i F))" "nid c \<noteq> None"
  shows "shape c \<in> S"
proof -
  from pruned_nodes(2)[OF assms(2)] obtain c0 where c0: "c0 \<in> set (nodes_f F)" "c = remove_node i c0"
    by blast
  with assms(3) have "nid c0 \<noteq> None" by simp
  with assms(1) c0(1) have "shape c0 \<in> S" by blast
  with c0(2) show ?thesis by simp
qed

lemma pruned_has_id:
  assumes "\<forall>y \<in> set (nodes_f F). nid y \<noteq> None" and "c \<in> set (nodes_f (remove_forest i F))"
  shows "nid c \<noteq> None"
proof -
  from pruned_nodes(2)[OF assms(2)] obtain c0 where "c0 \<in> set (nodes_f F)" "c = remove_node i c0"
    by blast
  with assms(1) show ?thesis by simp
qed

text \<open>The effect of one append, on either target.\<close>

lemma append_step:
  assumes "state_ok root0 s" and "nid x = Some i" and "i \<in> set (src_ids (nodes_f (forest s)))"
  obtains y where "find_by_id i (nodes_f (forest s)) = Some y"
    and "div_append x s = \<lparr>root = remove_node i (root s),
                            facsimile = remove_forest i (facsimile s),
                            div_elem = remove_forest i (div_elem s) @ [y]\<rparr>"
    and "facsimile_append x s = \<lparr>root = remove_node i (root s),
                            facsimile = remove_forest i (facsimile s) @ [y],
                            div_elem = remove_forest i (div_elem s)\<rparr>"
proof -
  from assms(3) obtain y where y: "find_by_id i (nodes_f (forest s)) = Some y"
    using find_by_id_None[of i "nodes_f (forest s)"] by (cases "find_by_id i (nodes_f (forest s))") auto
  have "div_append x s = \<lparr>root = remove_node i (root s),
                            facsimile = remove_forest i (facsimile s),
                            div_elem = remove_forest i (div_elem s) @ [y]\<rparr>"
    by (simp add: div_append_def detach_found[OF assms(2) y])
  moreover have "facsimile_append x s = \<lparr>root = remove_node i (root s),
                            facsimile = remove_forest i (facsimile s) @ [y],
                            div_elem = remove_forest i (div_elem s)\<rparr>"
    by (simp add: facsimile_append_def detach_found[OF assms(2) y])
  ultimately show ?thesis using y that by blast
qed

lemma moved_ids:
  assumes "distinct (src_ids (nodes_f (forest s)))" and "find_by_id i (nodes_f (forest s)) = Some y"
  shows "mset (src_ids (nodes_f (remove_forest i (kids (root s)))))
       + mset (src_ids (nodes_f (remove_forest i (facsimile s))))
       + mset (src_ids (nodes_f (remove_forest i (div_elem s))))
       + mset (src_ids (nodes y)) = mset (src_ids (nodes_f (forest s)))"
  using detach_ids(2)[OF assms] by (simp add: forest_def ac_simps)

lemma inv_moved:
  assumes i: "state_ok root0 s" and y: "find_by_id i (nodes_f (forest s)) = Some y"
    and r: "root s' = remove_node i (root s)"
    and f: "(facsimile s' = remove_forest i (facsimile s) @ [y] \<and> div_elem s' = remove_forest i (div_elem s))
          \<or> (facsimile s' = remove_forest i (facsimile s) \<and> div_elem s' = remove_forest i (div_elem s) @ [y])"
  shows "state_ok root0 s'" and "set (src_ids (nodes_f (forest s'))) = set (src_ids (nodes_f (forest s)))"
proof -
  from i have d: "distinct (src_ids (nodes_f (forest s)))"
    and sh: "\<forall>c \<in> set (nodes_f (forest s)). nid c \<noteq> None \<longrightarrow> shape c \<in> shape ` set (descendants root0)"
    and ro: "\<forall>c \<in> set (nodes_f (kids (root s))). nid c \<noteq> None"
    by (simp_all add: state_ok_def descendants_def)
  have ms: "mset (src_ids (nodes_f (forest s'))) = mset (src_ids (nodes_f (forest s)))"
    using moved_ids[OF d y] f r by (auto simp: forest_def ac_simps)
  then show "set (src_ids (nodes_f (forest s'))) = set (src_ids (nodes_f (forest s)))"
    by (rule mset_eq_setD)
  from ms d have d': "distinct (src_ids (nodes_f (forest s')))"
    using mset_eq_imp_distinct_iff by blast
  from find_by_id_Some[OF y] have yin: "y \<in> set (nodes_f (forest s))" by simp
  have sub: "set (nodes_f (forest s')) \<subseteq> set (nodes_f (remove_forest i (forest s))) \<union> set (nodes y)"
    using f r by (auto simp: forest_def)
  have sh': "\<forall>c \<in> set (nodes_f (forest s')). nid c \<noteq> None \<longrightarrow> shape c \<in> shape ` set (descendants root0)"
  proof (intro ballI impI)
    fix c assume c: "c \<in> set (nodes_f (forest s'))" "nid c \<noteq> None"
    from c(1) sub consider "c \<in> set (nodes_f (remove_forest i (forest s)))" | "c \<in> set (nodes y)"
      by blast
    then show "shape c \<in> shape ` set (descendants root0)"
    proof cases
      case 1
      from pruned_shapes_in[OF sh 1 c(2)] show ?thesis .
    next
      case 2
      with nodes_closed(2)[OF yin] have "c \<in> set (nodes_f (forest s))" by blast
      with sh c(2) show ?thesis by blast
    qed
  qed
  have ro': "\<forall>c \<in> set (descendants (root s')). nid c \<noteq> None"
    using pruned_has_id[OF ro] r by (simp add: descendants_def)
  from d' sh' ro' show "state_ok root0 s'" by (simp add: state_ok_def)
qed

lemma src_ids_all_some:
  "\<forall>e \<in> set ns. nid e \<noteq> None \<Longrightarrow> src_ids ns = map (\<lambda>e. the (nid e)) ns"
  by (induction ns) auto

lemma wf_same_id:
  assumes "wf_source root0" "a \<in> set (nodes root0)" "b \<in> set (nodes root0)" "nid a = nid b"
  shows "a = b"
proof -
  from assms(1) have s: "\<forall>e \<in> set (nodes root0). nid e \<noteq> None"
    and d: "distinct (src_ids (nodes root0))" by (simp_all add: wf_source_def)
  from d have "distinct (map (\<lambda>e. the (nid e)) (nodes root0))"
    by (simp add: src_ids_all_some[OF s])
  then have "inj_on (\<lambda>e. the (nid e)) (set (nodes root0))" by (simp add: distinct_map)
  moreover from assms(4) have "the (nid a) = the (nid b)" by simp
  ultimately show ?thesis using assms(2,3) by (meson inj_onD)
qed

lemma wf_shape_unique:
  assumes "wf_source root0" "sa \<in> shape ` set (descendants root0)" "sb \<in> shape ` set (descendants root0)"
    and "fst sa = fst sb"
  shows "sa = sb"
proof -
  from assms(2,3) obtain a b where ab: "a \<in> set (nodes root0)" "sa = shape a"
     "b \<in> set (nodes root0)" "sb = shape b"
    by (auto simp: descendants_def nodes_unfold[of root0])
  with assms(4) have "nid a = nid b" by (simp add: shape_def)
  from wf_same_id[OF assms(1) ab(1,3) this] ab show ?thesis by simp
qed

lemma top_shapes_kept:
  "i \<notin> set (src_ids ts) \<Longrightarrow> map shape (remove_forest i ts) = map shape ts"
  by (induction ts) (auto split: option.splits)

lemma top_ids_pruned: "set (src_ids (remove_forest i ts)) \<subseteq> set (src_ids ts)"
  by (induction ts) (auto split: option.splits)

lemma fold_div_append:
  assumes "wf_source root0"
  shows "state_ok root0 s \<Longrightarrow> div_elem s = D0 @ ys \<Longrightarrow>
     (\<forall>x \<in> set L. \<exists>i. nid x = Some i \<and> i \<in> set (src_ids (nodes_f (forest s)))
          \<and> i \<notin> set (src_ids (nodes_f D0)) \<and> i \<notin> set (src_ids ys)
          \<and> shape x \<in> shape ` set (descendants root0)) \<Longrightarrow>
     distinct (map nid L) \<Longrightarrow>
     state_ok root0 (fold div_append L s)
     \<and> (\<exists>zs. div_elem (fold div_append L s) = D0 @ zs \<and> map shape zs = map shape ys @ map shape L)
     \<and> root (fold div_append L s) = prune_all L (root s)"
proof (induction L arbitrary: s ys)
  case Nil
  then show ?case by (simp add: prune_all_def)
next
  case (Cons x L)
  from Cons.prems(3) obtain i where i: "nid x = Some i" "i \<in> set (src_ids (nodes_f (forest s)))"
    "i \<notin> set (src_ids (nodes_f D0))" "i \<notin> set (src_ids ys)" "shape x \<in> shape ` set (descendants root0)"
    by auto
  from append_step[OF Cons.prems(1) i(1,2)] obtain y where
    y: "find_by_id i (nodes_f (forest s)) = Some y"
    and st: "div_append x s = \<lparr>root = remove_node i (root s),
                            facsimile = remove_forest i (facsimile s),
                            div_elem = remove_forest i (div_elem s) @ [y]\<rparr>"
    by blast
  let ?s' = "div_append x s"
  let ?ys' = "remove_forest i ys @ [y]"
  have state_ok': "state_ok root0 ?s'" and ids': "set (src_ids (nodes_f (forest ?s'))) = set (src_ids (nodes_f (forest s)))"
    using inv_moved[OF Cons.prems(1) y, of ?s'] st by simp_all
  have d0: "remove_forest i D0 = D0" using i(3) by (rule remove_absent)
  have dv: "div_elem ?s' = D0 @ ?ys'" using st Cons.prems(2) d0 by simp
  from find_by_id_Some[OF y] have yin: "y \<in> set (nodes_f (forest s))" "nid y = Some i" by simp_all
  from Cons.prems(1) yin have "shape y \<in> shape ` set (descendants root0)" by (simp add: state_ok_def)
  from wf_shape_unique[OF assms this i(5)] yin(2) i(1) have sy: "shape y = shape x"
    by (simp add: shape_def)
  have rest: "\<forall>x' \<in> set L. \<exists>j. nid x' = Some j \<and> j \<in> set (src_ids (nodes_f (forest ?s')))
          \<and> j \<notin> set (src_ids (nodes_f D0)) \<and> j \<notin> set (src_ids ?ys')
          \<and> shape x' \<in> shape ` set (descendants root0)"
  proof
    fix x' assume x': "x' \<in> set L"
    with Cons.prems(3) obtain j where j: "nid x' = Some j" "j \<in> set (src_ids (nodes_f (forest s)))"
      "j \<notin> set (src_ids (nodes_f D0))" "j \<notin> set (src_ids ys)" "shape x' \<in> shape ` set (descendants root0)"
      by auto
    from Cons.prems(4) have "nid x \<notin> nid ` set L" by simp
    with x' i(1) j(1) have ne: "j \<noteq> i" by force
    from j(4) top_ids_pruned[of i ys] have "j \<notin> set (src_ids (remove_forest i ys))" by blast
    with ne yin(2) have "j \<notin> set (src_ids ?ys')" by simp
    with j ids' show "\<exists>j. nid x' = Some j \<and> j \<in> set (src_ids (nodes_f (forest ?s')))
          \<and> j \<notin> set (src_ids (nodes_f D0)) \<and> j \<notin> set (src_ids ?ys')
          \<and> shape x' \<in> shape ` set (descendants root0)" by blast
  qed
  from Cons.prems(4) have dl: "distinct (map nid L)" by simp
  from Cons.IH[OF state_ok' dv rest dl] obtain zs where
    r: "state_ok root0 (fold div_append L ?s')" "div_elem (fold div_append L ?s') = D0 @ zs"
       "map shape zs = map shape ?ys' @ map shape L"
       "root (fold div_append L ?s') = prune_all L (root ?s')"
    by blast
  have "map shape ?ys' = map shape ys @ [shape x]"
    using top_shapes_kept[OF i(4)] sy by simp
  with r(3) have "map shape zs = map shape ys @ map shape (x # L)" by simp
  moreover have "prune_all L (root ?s') = prune_all (x # L) (root s)"
    using st i(1) by (simp add: prune_all_def)
  ultimately show ?case using r by simp
qed

lemma nodes_pb [simp]: "nodes (pb n) = [pb n]" "nid (pb n) = None" "tag (pb n) = ''pb''"
  by (simp_all add: pb_def)

lemma inv_add_pb:
  assumes "state_ok root0 s"
  shows "state_ok root0 (s\<lparr>div_elem := div_elem s @ [pb n]\<rparr>)"
  using assms by (auto simp: state_ok_def forest_def)

lemma page_content_subset: "set (page_content n s) \<subseteq> set (descendants (root s))"
  by (auto simp: page_content_def findall_def Let_def)

lemma distinct_ids_filter:
  assumes "distinct (src_ids ns)" "\<forall>e \<in> set ns. nid e \<noteq> None"
  shows "distinct (map nid (filter p ns))"
proof -
  from assms have "distinct (map (the \<circ> nid) ns)" by (simp add: src_ids_all_some comp_def)
  then have "distinct (map (the \<circ> nid) (filter p ns))" by (rule distinct_map_filter)
  then have d: "distinct (filter p ns)" and "inj_on (the \<circ> nid) (set (filter p ns))"
    by (simp_all only: distinct_map)
  then have "inj_on nid (set (filter p ns))" by (blast intro: inj_on_imageI2)
  with d show ?thesis by (simp only: distinct_map)
qed

lemma page_content_distinct:
  assumes "state_ok root0 s"
  shows "distinct (map nid (page_content n s))"
proof -
  from assms have "distinct (src_ids (descendants (root s)))" "\<forall>e \<in> set (descendants (root s)). nid e \<noteq> None"
    by (simp_all add: state_ok_def forest_def descendants_def)
  from distinct_ids_filter[OF this] show ?thesis
    by (simp add: page_content_def findall_def Let_def)
qed

lemma page_step_effect:
  assumes wf: "wf_source root0" and i: "state_ok root0 s"
  shows "state_ok root0 (page_step n s)
     \<and> (\<exists>zs. div_elem (page_step n s) = div_elem s @ pb n # zs
              \<and> map shape zs = map shape (page_content n s))
     \<and> root (page_step n s) = prune_all (page_content n s) (root s)"
proof -
  let ?s1 = "s\<lparr>div_elem := div_elem s @ [pb n]\<rparr>"
  let ?L = "page_content n s"
  have pc: "page_content n ?s1 = ?L" by (simp add: page_content_def Let_def)
  have ps: "page_step n s = fold div_append ?L ?s1" by (simp add: page_step_def pc Let_def)
  have i1: "state_ok root0 ?s1" using i by (rule inv_add_pb)
  from i have d: "distinct (src_ids (nodes_f (kids (root s))) @ src_ids (nodes_f (facsimile s)) @ src_ids (nodes_f (div_elem s)))"
    by (simp add: state_ok_def forest_def)
  have L: "\<forall>x \<in> set ?L. \<exists>j. nid x = Some j \<and> j \<in> set (src_ids (nodes_f (forest ?s1)))
          \<and> j \<notin> set (src_ids (nodes_f (div_elem s @ [pb n]))) \<and> j \<notin> set (src_ids [])
          \<and> shape x \<in> shape ` set (descendants root0)"
  proof
    fix x assume "x \<in> set ?L"
    with page_content_subset have x: "x \<in> set (nodes_f (kids (root s)))" by (auto simp: descendants_def)
    with i obtain j where j: "nid x = Some j" by (auto simp: state_ok_def descendants_def)
    with x have in1: "j \<in> set (src_ids (nodes_f (kids (root s))))" by (auto simp: set_src_ids)
    with d have "j \<notin> set (src_ids (nodes_f (div_elem s)))" by auto
    moreover from i x j have "shape x \<in> shape ` set (descendants root0)" by (simp add: state_ok_def forest_def)
    ultimately show "\<exists>j. nid x = Some j \<and> j \<in> set (src_ids (nodes_f (forest ?s1)))
          \<and> j \<notin> set (src_ids (nodes_f (div_elem s @ [pb n]))) \<and> j \<notin> set (src_ids [])
          \<and> shape x \<in> shape ` set (descendants root0)"
      using j in1 by (simp add: forest_def)
  qed
  have "div_elem ?s1 = (div_elem s @ [pb n]) @ []" by simp
  from fold_div_append[OF wf i1 this L page_content_distinct[OF i]]
  show ?thesis unfolding ps by auto
qed

lemma inv_initial:
  assumes "wf_source root0"
  shows "state_ok root0 \<lparr>root = root0, facsimile = [], div_elem = []\<rparr>"
proof -
  from assms have "distinct (src_ids (nodes_f (kids root0)))"
    by (simp add: wf_source_def src_ids_node split: option.splits)
  moreover from assms have "\<forall>y \<in> set (nodes_f (kids root0)). nid y \<noteq> None"
    by (simp add: wf_source_def nodes_unfold[of root0])
  ultimately show ?thesis by (simp add: state_ok_def forest_def descendants_def)
qed

lemma fold_facsimile_append:
  "state_ok root0 s \<Longrightarrow> div_elem s = [] \<Longrightarrow>
   (\<forall>x \<in> set L. \<exists>i. nid x = Some i \<and> i \<in> set (src_ids (nodes_f (forest s)))) \<Longrightarrow>
   state_ok root0 (fold facsimile_append L s) \<and> div_elem (fold facsimile_append L s) = []
   \<and> root (fold facsimile_append L s) = prune_all L (root s)"
proof (induction L arbitrary: s)
  case Nil
  then show ?case by (simp add: prune_all_def)
next
  case (Cons x L)
  from Cons.prems(3) obtain i where i: "nid x = Some i" "i \<in> set (src_ids (nodes_f (forest s)))"
    by auto
  from append_step[OF Cons.prems(1) i] obtain y where
    y: "find_by_id i (nodes_f (forest s)) = Some y"
    and st: "facsimile_append x s = \<lparr>root = remove_node i (root s),
                            facsimile = remove_forest i (facsimile s) @ [y],
                            div_elem = remove_forest i (div_elem s)\<rparr>"
    by blast
  let ?s' = "facsimile_append x s"
  have state_ok': "state_ok root0 ?s'" and ids': "set (src_ids (nodes_f (forest ?s'))) = set (src_ids (nodes_f (forest s)))"
    using inv_moved[OF Cons.prems(1) y, of ?s'] st by simp_all
  have dv: "div_elem ?s' = []" using st Cons.prems(2) by simp
  from Cons.prems(3) ids' have
    "\<forall>x \<in> set L. \<exists>i. nid x = Some i \<and> i \<in> set (src_ids (nodes_f (forest ?s')))" by simp
  from Cons.IH[OF state_ok' dv this] st i(1) show ?case by (simp add: prune_all_def)
qed

lemma surfaces_moved_inv:
  assumes "wf_source root0"
  shows "state_ok root0 (surfaces_moved r root0)" "div_elem (surfaces_moved r root0) = []"
    "root (surfaces_moved r root0) = prune_all (extract_surface_elements root0 r) root0"
proof -
  let ?s0 = "\<lparr>root = root0, facsimile = [], div_elem = []\<rparr>"
  have "\<forall>x \<in> set (extract_surface_elements root0 r).
          \<exists>i. nid x = Some i \<and> i \<in> set (src_ids (nodes_f (forest ?s0)))"
  proof
    fix x assume "x \<in> set (extract_surface_elements root0 r)"
    then have x: "x \<in> set (nodes_f (kids root0))"
      by (auto simp: extract_surface_elements_def findall_def descendants_def)
    with assms obtain i where "nid x = Some i"
      by (auto simp: wf_source_def nodes_unfold[of root0])
    with x show "\<exists>i. nid x = Some i \<and> i \<in> set (src_ids (nodes_f (forest ?s0)))"
      by (auto simp: forest_def set_src_ids)
  qed
  from fold_facsimile_append[OF inv_initial[OF assms] _ this]
  show "state_ok root0 (surfaces_moved r root0)" "div_elem (surfaces_moved r root0) = []"
    "root (surfaces_moved r root0) = prune_all (extract_surface_elements root0 r) root0"
    by (simp_all add: surfaces_moved_def Let_def)
qed

lemma pages_loop:
  assumes wf: "wf_source root0" and i: "state_ok root0 s"
  shows "state_ok root0 (fold page_step ps s)
     \<and> (\<exists>cs. length cs = length ps
           \<and> div_elem (fold page_step ps s) = div_elem s @ concat (map2 (\<lambda>n c. pb n # c) ps cs)
           \<and> (\<forall>k < length ps. state_ok root0 (fold page_step (take k ps) s)
                 \<and> map shape (cs ! k) = map shape (page_content (ps ! k) (fold page_step (take k ps) s))))"
proof (induction ps rule: rev_induct)
  case Nil
  from i show ?case by simp
next
  case (snoc n ps)
  let ?s = "fold page_step ps s"
  from snoc obtain cs where cs: "state_ok root0 ?s" "length cs = length ps"
     "div_elem ?s = div_elem s @ concat (map2 (\<lambda>n c. pb n # c) ps cs)"
     "\<forall>k < length ps. state_ok root0 (fold page_step (take k ps) s)
          \<and> map shape (cs ! k) = map shape (page_content (ps ! k) (fold page_step (take k ps) s))"
    by blast
  from page_step_effect[OF wf cs(1), of n] obtain zs where
    zs: "state_ok root0 (page_step n ?s)" "div_elem (page_step n ?s) = div_elem ?s @ pb n # zs"
        "map shape zs = map shape (page_content n ?s)"
    by blast
  have f: "fold page_step (ps @ [n]) s = page_step n ?s" by simp
  have "length (cs @ [zs]) = length (ps @ [n])" using cs(2) by simp
  moreover have "div_elem (fold page_step (ps @ [n]) s)
      = div_elem s @ concat (map2 (\<lambda>n c. pb n # c) (ps @ [n]) (cs @ [zs]))"
    using zs(2) cs(2,3) by (simp add: f)
  moreover have "\<forall>k < length (ps @ [n]). state_ok root0 (fold page_step (take k (ps @ [n])) s)
          \<and> map shape ((cs @ [zs]) ! k)
              = map shape (page_content ((ps @ [n]) ! k) (fold page_step (take k (ps @ [n])) s))"
  proof (intro allI impI)
    fix k assume k: "k < length (ps @ [n])"
    show "state_ok root0 (fold page_step (take k (ps @ [n])) s)
          \<and> map shape ((cs @ [zs]) ! k)
              = map shape (page_content ((ps @ [n]) ! k) (fold page_step (take k (ps @ [n])) s))"
    proof (cases "k < length ps")
      case True
      with cs(2,4) show ?thesis by (simp add: nth_append)
    next
      case False
      with k have "k = length ps" by simp
      with cs(1,2) zs(3) show ?thesis by (simp add: nth_append)
    qed
  qed
  ultimately show ?case using zs(1) f by metis
qed

section \<open>The page breaks of the new document\<close>

lemma match_shape:
  assumes "shape a = shape b"
  shows "table_match n a = table_match n b" "ab_match n a = ab_match n b"
    "surface_match n a = surface_match n b" "is_page_break a = is_page_break b"
    "carrier a = carrier b"
  using assms
  by (simp_all add: shape_def table_match_def ab_match_def surface_match_def is_page_break_def
        carrier_def get_attr_def)

lemma nonempty_member: "xs \<noteq> [] \<Longrightarrow> \<exists>x. x \<in> set xs"
  by (cases xs) auto

lemma page_content_kind:
  "x \<in> set (page_content n s) \<Longrightarrow> table_match n x \<or> ab_match n x"
  by (auto simp: page_content_def findall_def Let_def split: if_splits)

lemma match_not_page_break: "table_match n x \<or> ab_match n x \<Longrightarrow> \<not> is_page_break x"
  by (auto simp: table_match_def ab_match_def is_page_break_def tei_def)

lemma same_shapes_member:
  assumes "map shape zs = map shape L" "z \<in> set zs"
  shows "\<exists>x \<in> set L. shape z = shape x"
proof -
  from assms(2) have "shape z \<in> set (map shape zs)" by simp
  with assms(1) have "shape z \<in> set (map shape L)" by simp
  then show ?thesis by auto
qed

lemma filter_page_breaks:
  "length ps = length cs \<Longrightarrow> (\<forall>c \<in> set cs. \<forall>x \<in> set c. \<not> is_page_break x) \<Longrightarrow>
   filter is_page_break (concat (map2 (\<lambda>n c. pb n # c) ps cs)) = map pb ps"
proof (induction ps cs rule: list_induct2)
  case Nil
  then show ?case by simp
next
  case (Cons n ps c cs)
  from Cons.prems have "filter is_page_break c = []" by (simp add: filter_empty_conv)
  with Cons show ?case by (simp add: is_page_break_def)
qed

lemma body_div_tei_document:
  "body_div (tei_document cfg root0) = div_elem (moved_state (facs_start_range cfg) root0)"
  by (simp add: body_div_def child_elems_def tei_document_def create_tei_header_def Let_def)

lemma pb_attributes:
  "get_attr (pb n) ''facs'' = Some (''#facs_'' @ str_int n)"
  "get_attr (pb n) ''n'' = Some (str_int n)"
  "get_attr (pb n) xml_id = Some (''img_00'' @ str_int n)"
  by (simp_all add: pb_def get_attr_def xml_id_def)

text \<open>
  Claim C2.  For a parsed source document and a range with \<open>start \<le> stop\<close>, the children
  of \<open>text/body/div\<close> that are page breaks are exactly the elements \<open>pb n\<close> for the pages
  \<open>n\<close> of the range in ascending order, \<open>stop - start\<close> of them; \<open>pb n\<close> carries the
  three attributes; the children of \<open>div\<close> are, page by page, the page break followed
  by the nodes moved for that page, and for a page that matches no table and no text
  block of the source document nothing follows its page break.
\<close>

theorem page_breaks_of_div:
  assumes "wf_source root0" and "start (facs_start_range cfg) \<le> stop (facs_start_range cfg)"
  shows "filter is_page_break (body_div (tei_document cfg root0))
           = map pb [start (facs_start_range cfg) .. stop (facs_start_range cfg) - 1]
     \<and> int (length (filter is_page_break (body_div (tei_document cfg root0))))
           = stop (facs_start_range cfg) - start (facs_start_range cfg)
     \<and> (\<forall>n. get_attr (pb n) ''facs'' = Some (''#facs_'' @ str_int n)
            \<and> get_attr (pb n) ''n'' = Some (str_int n)
            \<and> get_attr (pb n) xml_id = Some (''img_00'' @ str_int n))
     \<and> (\<exists>cs. length cs = length (range_list (facs_start_range cfg))
            \<and> body_div (tei_document cfg root0)
                 = concat (map2 (\<lambda>n c. pb n # c) (range_list (facs_start_range cfg)) cs)
            \<and> (\<forall>c \<in> set cs. \<forall>x \<in> set c. \<not> is_page_break x)
            \<and> (\<forall>k < length cs.
                  (\<forall>x \<in> set (descendants root0).
                      \<not> table_match (range_list (facs_start_range cfg) ! k) x
                    \<and> \<not> ab_match (range_list (facs_start_range cfg) ! k) x)
                  \<longrightarrow> cs ! k = []))"
proof -
  let ?r = "facs_start_range cfg"
  let ?ps = "range_list ?r"
  let ?s1 = "surfaces_moved ?r root0"
  note sm = surfaces_moved_inv[OF assms(1), of ?r]
  from pages_loop[OF assms(1) sm(1), of ?ps] obtain cs where
    cs: "length cs = length ?ps"
        "div_elem (fold page_step ?ps ?s1) = div_elem ?s1 @ concat (map2 (\<lambda>n c. pb n # c) ?ps cs)"
        "\<forall>k < length ?ps. state_ok root0 (fold page_step (take k ?ps) ?s1)
            \<and> map shape (cs ! k) = map shape (page_content (?ps ! k) (fold page_step (take k ?ps) ?s1))"
    by blast
  have dv: "body_div (tei_document cfg root0) = concat (map2 (\<lambda>n c. pb n # c) ?ps cs)"
    using cs(2) sm(2) by (simp add: body_div_tei_document moved_state_def)
  have nopb: "\<forall>c \<in> set cs. \<forall>x \<in> set c. \<not> is_page_break x"
  proof (intro ballI)
    fix c x assume c: "c \<in> set cs" and x: "x \<in> set c"
    from c obtain k where k: "k < length cs" "c = cs ! k" by (auto simp: in_set_conv_nth)
    with cs(1,3) have "map shape c = map shape (page_content (?ps ! k) (fold page_step (take k ?ps) ?s1))"
      by simp
    from same_shapes_member[OF this x] obtain x0 where
      x0: "x0 \<in> set (page_content (?ps ! k) (fold page_step (take k ?ps) ?s1))" "shape x = shape x0"
      by blast
    from match_not_page_break[OF page_content_kind[OF x0(1)]] match_shape(4)[OF x0(2)]
    show "\<not> is_page_break x" by simp
  qed
  have empty: "\<forall>k < length cs.
                  (\<forall>x \<in> set (descendants root0).
                      \<not> table_match (?ps ! k) x \<and> \<not> ab_match (?ps ! k) x)
                  \<longrightarrow> cs ! k = []"
  proof (intro allI impI)
    fix k assume k: "k < length cs"
      and no: "\<forall>x \<in> set (descendants root0). \<not> table_match (?ps ! k) x \<and> \<not> ab_match (?ps ! k) x"
    let ?sk = "fold page_step (take k ?ps) ?s1"
    from k cs(1,3) have ik: "state_ok root0 ?sk"
      and sh: "map shape (cs ! k) = map shape (page_content (?ps ! k) ?sk)" by simp_all
    have "page_content (?ps ! k) ?sk = []"
    proof (rule ccontr)
      assume "page_content (?ps ! k) ?sk \<noteq> []"
      then have "\<exists>x. x \<in> set (page_content (?ps ! k) ?sk)" by (rule nonempty_member)
      then obtain x where x: "x \<in> set (page_content (?ps ! k) ?sk)" ..
      with page_content_subset have xd: "x \<in> set (nodes_f (kids (root ?sk)))"
        by (auto simp: descendants_def)
      with ik have "nid x \<noteq> None" by (simp add: state_ok_def descendants_def)
      with ik xd have "shape x \<in> shape ` set (descendants root0)" by (simp add: state_ok_def forest_def)
      then obtain x0 where x0: "x0 \<in> set (descendants root0)" "shape x = shape x0" by blast
      from page_content_kind[OF x] match_shape(1,2)[OF x0(2)]
      have "table_match (?ps ! k) x0 \<or> ab_match (?ps ! k) x0" by simp
      with no x0(1) show False by blast
    qed
    with sh show "cs ! k = []" by simp
  qed
  have flt: "filter is_page_break (body_div (tei_document cfg root0)) = map pb ?ps"
    unfolding dv using filter_page_breaks[OF cs(1)[symmetric] nopb] .
  have len: "int (length (filter is_page_break (body_div (tei_document cfg root0))))
           = stop ?r - start ?r"
    using assms(2) by (simp add: flt range_list_def)
  from flt len dv cs(1) nopb empty pb_attributes show ?thesis
    unfolding range_list_def by blast
qed


lemma wf_sample_tree: "wf_source sample_tree"
  by (simp add: wf_source_def sample_tree_def)

lemma sample_page_84:
  "range_list (facs_start_range script_config) = [81, 82, 83, 84, 85, 86, 87, 88]"
  "\<forall>x \<in> set (descendants sample_tree). \<not> table_match 84 x \<and> \<not> ab_match 84 x"
  by code_simp+

theorem page_breaks_of_div_witness:
  "wf_source sample_tree
   \<and> start (facs_start_range script_config) \<le> stop (facs_start_range script_config)
   \<and> filter is_page_break (body_div (tei_document script_config sample_tree))
        = map pb [81, 82, 83, 84, 85, 86, 87, 88]
   \<and> (\<exists>cs. length cs = 8
          \<and> body_div (tei_document script_config sample_tree)
               = concat (map2 (\<lambda>n c. pb n # c) [81, 82, 83, 84, 85, 86, 87, 88] cs)
          \<and> cs ! 3 = [])"
proof -
  have r: "start (facs_start_range script_config) = 81" "stop (facs_start_range script_config) = 89"
    by (simp_all add: script_config_def)
  have u: "[81 .. 88 :: int] = [81, 82, 83, 84, 85, 86, 87, 88]"
    by (simp add: upto_rec1)
  have h: "start (facs_start_range script_config) \<le> stop (facs_start_range script_config)"
    by (simp add: r)
  note t = page_breaks_of_div [OF wf_sample_tree h]
  from t have f: "filter is_page_break (body_div (tei_document script_config sample_tree))
        = map pb [81, 82, 83, 84, 85, 86, 87, 88]" by (simp add: r u)
  from t obtain cs where cs: "length cs = length (range_list (facs_start_range script_config))"
    "body_div (tei_document script_config sample_tree)
       = concat (map2 (\<lambda>n c. pb n # c) (range_list (facs_start_range script_config)) cs)"
    "\<forall>k < length cs.
        (\<forall>x \<in> set (descendants sample_tree).
            \<not> table_match (range_list (facs_start_range script_config) ! k) x
          \<and> \<not> ab_match (range_list (facs_start_range script_config) ! k) x)
        \<longrightarrow> cs ! k = []"
    by blast
  from cs(1) have l: "length cs = 8" by (simp add: sample_page_84(1))
  with cs(3) sample_page_84(2) have "cs ! 3 = []" by (simp add: sample_page_84(1))
  with l cs(2) have "\<exists>cs. length cs = 8
          \<and> body_div (tei_document script_config sample_tree)
               = concat (map2 (\<lambda>n c. pb n # c) [81, 82, 83, 84, 85, 86, 87, 88] cs)
          \<and> cs ! 3 = []" by (auto simp: sample_page_84(1))
  with wf_sample_tree h f show ?thesis by blast
qed

section \<open>The empty range\<close>

lemma main_success:
  assumes "etree_parse en (files w) (file_path cfg) = Inr src_root"
    and "out = output_file_path (year_of_volume cfg) (facs_start_range cfg)"
    and "fin = transformed_output_path (year_of_volume cfg) (facs_start_range cfg)"
    and "tei_str = etree_tostring en (tei_document cfg src_root)"
    and "open_error en out = None"
    and "etree_parse en ((files w)(out \<mapsto> tei_str)) out = Inr original_tree"
    and "transform_xml en ((files w)(out \<mapsto> tei_str)) (xslt_path cfg) original_tree = Inr transformed_tree"
    and "open_error en fin = None"
    and "remove_error en out = None"
  shows "fst (main en cfg w) = Completed"
proof -
  let ?w2 = "\<lparr>files = (files w)(out \<mapsto> tei_str),
        events = events w @ (if files w out \<noteq> None then [Print (warning_line out)] else [])
                   @ [FileWritten out, Print (''The original XML output has been saved to '' @ out)]\<rparr>"
  let ?w3 = "\<lparr>files = (files ?w2)(fin \<mapsto> lb_fixup (etree_tostring en transformed_tree)),
        events = events ?w2 @ [FileWritten fin, Print (''The transformed XML has been saved to '' @ fin)]\<rparr>"
  have "main en cfg w = write_final en cfg transformed_tree ?w2"
    by (rule main_until_final [OF assms(1,2,4,5,6,7)])
  also have "\<dots> = (case os_remove en out ?w3 of
        (Some ex, w4) \<Rightarrow> (Uncaught ex, w4) | (None, w4) \<Rightarrow> (Completed, w4))"
    using assms(8) unfolding assms(2,3) by (rule write_final_written)
  also have "os_remove en out ?w3 =
     (None, \<lparr>files = (files ?w3)(out := None), events = events ?w3 @ [FileRemoved out]\<rparr>)"
    using assms(9) by (intro os_remove_ok) simp_all
  finally show ?thesis by simp
qed

lemma range_list_empty: "start r = stop r \<Longrightarrow> range_list r = []"
  by (simp add: range_list_def)

text \<open>
  Claim C10.  For a range with \<open>start = stop\<close> both loops do nothing: the source tree
  stays whole, the \<open>facsimile\<close> element and the \<open>div\<close> are empty, and the intermediate
  path has the form of a single page, the same as for the range from \<open>start\<close> to
  \<open>start + 1\<close>.  Nothing in the assembly can raise, and the run completes whenever the
  library and file-system calls it makes succeed.
\<close>

theorem empty_range:
  assumes "start (facs_start_range cfg) = stop (facs_start_range cfg)"
  shows "moved_state (facs_start_range cfg) root0 = \<lparr>root = root0, facsimile = [], div_elem = []\<rparr>
     \<and> kids (tei_document cfg root0) =
         kids (create_tei_header (year_of_volume cfg) (publisher_text cfg) (pub_place_text cfg)
                 (title_series_text cfg) (idno_external_text cfg))
         @ [Elem None ''facsimile'' [] None [],
            Elem None ''text'' [] None [Elem None ''body'' [] None [Elem None ''div'' [] None []]]]
     \<and> body_div (tei_document cfg root0) = []
     \<and> output_file_path (year_of_volume cfg) (facs_start_range cfg)
         = ''output/'' @ year_of_volume cfg @ ''_'' @ str_int (start (facs_start_range cfg)) @ ''_before.xml''
     \<and> output_file_path (year_of_volume cfg) (facs_start_range cfg)
         = output_file_path (year_of_volume cfg)
             \<lparr>start = start (facs_start_range cfg), stop = start (facs_start_range cfg) + 1\<rparr>
     \<and> (\<forall>src_root original_tree transformed_tree.
          etree_parse en (files w) (file_path cfg) = Inr src_root
        \<and> open_error en (output_file_path (year_of_volume cfg) (facs_start_range cfg)) = None
        \<and> etree_parse en
             ((files w)(output_file_path (year_of_volume cfg) (facs_start_range cfg)
                          \<mapsto> etree_tostring en (tei_document cfg src_root)))
             (output_file_path (year_of_volume cfg) (facs_start_range cfg)) = Inr original_tree
        \<and> transform_xml en
             ((files w)(output_file_path (year_of_volume cfg) (facs_start_range cfg)
                          \<mapsto> etree_tostring en (tei_document cfg src_root)))
             (xslt_path cfg) original_tree = Inr transformed_tree
        \<and> open_error en (transformed_output_path (year_of_volume cfg) (facs_start_range cfg)) = None
        \<and> remove_error en (output_file_path (year_of_volume cfg) (facs_start_range cfg)) = None
        \<longrightarrow> fst (main en cfg w) = Completed)"
proof -
  let ?r = "facs_start_range cfg"
  have e: "range_list ?r = []" using assms by (rule range_list_empty)
  have ms: "moved_state ?r root0 = \<lparr>root = root0, facsimile = [], div_elem = []\<rparr>"
    by (simp add: moved_state_def surfaces_moved_def extract_surface_elements_def e)
  have k: "kids (tei_document cfg root0) =
         kids (create_tei_header (year_of_volume cfg) (publisher_text cfg) (pub_place_text cfg)
                 (title_series_text cfg) (idno_external_text cfg))
         @ [Elem None ''facsimile'' [] None [],
            Elem None ''text'' [] None [Elem None ''body'' [] None [Elem None ''div'' [] None []]]]"
    by (simp add: tei_document_def ms Let_def)
  have b: "body_div (tei_document cfg root0) = []"
    by (simp add: body_div_tei_document ms)
  have p1: "output_file_path (year_of_volume cfg) ?r
         = ''output/'' @ year_of_volume cfg @ ''_'' @ str_int (start ?r) @ ''_before.xml''"
    using assms by (simp add: output_file_path_def range_str_def)
  have p2: "output_file_path (year_of_volume cfg) ?r
         = output_file_path (year_of_volume cfg) \<lparr>start = start ?r, stop = start ?r + 1\<rparr>"
    using assms by (simp add: output_file_path_def range_str_def)
  have m: "\<forall>src_root original_tree transformed_tree.
          etree_parse en (files w) (file_path cfg) = Inr src_root
        \<and> open_error en (output_file_path (year_of_volume cfg) ?r) = None
        \<and> etree_parse en
             ((files w)(output_file_path (year_of_volume cfg) ?r
                          \<mapsto> etree_tostring en (tei_document cfg src_root)))
             (output_file_path (year_of_volume cfg) ?r) = Inr original_tree
        \<and> transform_xml en
             ((files w)(output_file_path (year_of_volume cfg) ?r
                          \<mapsto> etree_tostring en (tei_document cfg src_root)))
             (xslt_path cfg) original_tree = Inr transformed_tree
        \<and> open_error en (transformed_output_path (year_of_volume cfg) ?r) = None
        \<and> remove_error en (output_file_path (year_of_volume cfg) ?r) = None
        \<longrightarrow> fst (main en cfg w) = Completed"
    using main_success[OF _ refl refl refl] by blast
  from ms k b p1 p2 m show ?thesis by blast
qed


theorem empty_range_witness:
  "start (facs_start_range empty_config) = stop (facs_start_range empty_config)
   \<and> body_div (tei_document empty_config sample_tree) = []
   \<and> output_file_path (year_of_volume empty_config) (facs_start_range empty_config)
        = ''output/1758_81_before.xml''
   \<and> output_file_path (year_of_volume empty_config) \<lparr>start = 81, stop = 82\<rparr>
        = ''output/1758_81_before.xml''
   \<and> fst (main sample_env empty_config sample_world) = Completed"
proof -
  have c: "facs_start_range empty_config = \<lparr>start = 81, stop = 81\<rparr>"
      "year_of_volume empty_config = ''1758''"
      "file_path empty_config = ''export_files/file.xml''"
      "xslt_path empty_config = ''xslt/test-stylesheet.xsl''"
    by (simp_all add: empty_config_def script_config_def)
  have h: "start (facs_start_range empty_config) = stop (facs_start_range empty_config)"
    by (simp add: c)
  have p: "output_file_path ''1758'' \<lparr>start = 81, stop = 81\<rparr> = ''output/1758_81_before.xml''"
      "transformed_output_path ''1758'' \<lparr>start = 81, stop = 81\<rparr> = ''output/1758_081.xml''"
    by (simp_all add: output_file_path_def range_str_def str_int_81
          transformed_output_path_def formatted_range_str_def format_03d_81)
  have e: "etree_parse sample_env (files sample_world) ''export_files/file.xml'' = Inr sample_tree"
      "\<And>q. open_error sample_env q = None" "\<And>q. remove_error sample_env q = None"
      "\<And>t. etree_tostring sample_env t = ''<TEI/>''"
      "etree_parse sample_env ((files sample_world)(''output/1758_81_before.xml'' \<mapsto> ''<TEI/>''))
          ''output/1758_81_before.xml'' = Inr sample_tree"
      "transform_xml sample_env ((files sample_world)(''output/1758_81_before.xml'' \<mapsto> ''<TEI/>''))
          ''xslt/test-stylesheet.xsl'' sample_tree = Inr sample_tree"
    by (simp_all add: sample_env_def sample_world_def transform_xml_def)
  from empty_range [OF h, of sample_tree sample_env sample_world]
  have r: "body_div (tei_document empty_config sample_tree) = []"
    "output_file_path (year_of_volume empty_config) (facs_start_range empty_config)
       = output_file_path (year_of_volume empty_config)
             \<lparr>start = start (facs_start_range empty_config), stop = start (facs_start_range empty_config) + 1\<rparr>"
    "\<And>src_root original_tree transformed_tree.
          etree_parse sample_env (files sample_world) (file_path empty_config) = Inr src_root
        \<and> open_error sample_env (output_file_path (year_of_volume empty_config) (facs_start_range empty_config)) = None
        \<and> etree_parse sample_env
             ((files sample_world)(output_file_path (year_of_volume empty_config) (facs_start_range empty_config)
                          \<mapsto> etree_tostring sample_env (tei_document empty_config src_root)))
             (output_file_path (year_of_volume empty_config) (facs_start_range empty_config)) = Inr original_tree
        \<and> transform_xml sample_env
             ((files sample_world)(output_file_path (year_of_volume empty_config) (facs_start_range empty_config)
                          \<mapsto> etree_tostring sample_env (tei_document empty_config src_root)))
             (xslt_path empty_config) original_tree = Inr transformed_tree
        \<and> open_error sample_env (transformed_output_path (year_of_volume empty_config) (facs_start_range empty_config)) = None
        \<and> remove_error sample_env (output_file_path (year_of_volume empty_config) (facs_start_range empty_config)) = None
        \<Longrightarrow> fst (main sample_env empty_config sample_world) = Completed"
    by blast+
  have m: "fst (main sample_env empty_config sample_world) = Completed"
    by (rule r(3) [of sample_tree sample_tree sample_tree]) (simp add: c p e)
  from r(1) r(2) m h show ?thesis by (simp add: c p)
qed


section \<open>Tables before text blocks\<close>

lemma digit_char_inj: "a < 10 \<Longrightarrow> b < 10 \<Longrightarrow> digit_char a = digit_char b \<Longrightarrow> a = b"
  unfolding digit_char_def
  by (simp add: numeral_eq_Suc less_Suc_eq) (elim disjE; simp)

lemma digit_char_not_minus: "d < 10 \<Longrightarrow> digit_char d \<noteq> CHR ''-''"
  unfolding digit_char_def
  by (simp add: numeral_eq_Suc less_Suc_eq) (elim disjE; simp)

lemma str_nat_ne: "str_nat n \<noteq> []"
  by (subst str_nat.simps) simp

lemma str_nat_hd: "hd (str_nat n) \<noteq> CHR ''-''"
proof (induction n rule: str_nat.induct)
  case (1 n)
  show ?case
  proof (cases "n < 10")
    case True
    then show ?thesis by (simp add: str_nat_small digit_char_not_minus)
  next
    case False
    with 1 show ?thesis by (simp add: str_nat_large str_nat_ne)
  qed
qed

lemma str_nat_inj: "str_nat a = str_nat b \<Longrightarrow> a = b"
proof (induction a arbitrary: b rule: str_nat.induct)
  case (1 n)
  show ?case
  proof (cases "n < 10")
    case True
    show ?thesis
    proof (cases "b < 10")
      case bt: True
      with True "1.prems" show ?thesis by (auto simp: str_nat_small dest: digit_char_inj)
    next
      case False
      with True "1.prems" have "str_nat (b div 10) = []" by (simp add: str_nat_small str_nat_large)
      then show ?thesis by (simp add: str_nat_ne)
    qed
  next
    case False
    show ?thesis
    proof (cases "b < 10")
      case True
      with False "1.prems" have "str_nat (n div 10) = []" by (simp add: str_nat_small str_nat_large)
      then show ?thesis by (simp add: str_nat_ne)
    next
      case bf: False
      with False "1.prems" have e: "str_nat (n div 10) = str_nat (b div 10)"
          "digit_char (n mod 10) = digit_char (b mod 10)"
        by (simp_all add: str_nat_large)
      from "1.IH"[OF False e(1)] have "n div 10 = b div 10" .
      moreover from e(2) have "n mod 10 = b mod 10" by (intro digit_char_inj) simp_all
      ultimately show ?thesis by (metis div_mult_mod_eq)
    qed
  qed
qed

lemma str_int_inj: "str_int a = str_int b \<Longrightarrow> a = b"
proof -
  assume e: "str_int a = str_int b"
  have neg: "\<And>i. i < 0 \<Longrightarrow> hd (str_int i) = CHR ''-''" by (simp add: str_int_def)
  have pos: "\<And>i. \<not> i < 0 \<Longrightarrow> hd (str_int i) \<noteq> CHR ''-''" by (simp add: str_int_def str_nat_hd)
  show ?thesis
  proof (cases "a < 0")
    case True
    with e neg pos have "b < 0" by metis
    with True e have "str_nat (nat (- a)) = str_nat (nat (- b))" by (simp add: str_int_def)
    then have "nat (- a) = nat (- b)" by (rule str_nat_inj)
    with True \<open>b < 0\<close> show ?thesis by simp
  next
    case False
    with e neg pos have "\<not> b < 0" by metis
    with False e have "str_nat (nat a) = str_nat (nat b)" by (simp add: str_int_def)
    then have "nat a = nat b" by (rule str_nat_inj)
    with False \<open>\<not> b < 0\<close> show ?thesis by simp
  qed
qed

lemma table_match_unique: "table_match m e \<Longrightarrow> table_match n e \<Longrightarrow> m = n"
  by (auto simp: table_match_def dest: str_int_inj)

lemma table_match_tag: "table_match n e \<Longrightarrow> tag e = tei ''table''"
  by (simp add: table_match_def)

lemma tables_outermost_append:
  "tables_outermost (a @ b) \<longleftrightarrow> tables_outermost a \<and> tables_outermost b"
  by (auto simp: tables_outermost_def)

lemma tables_outermost_kids: "tables_outermost [t] \<Longrightarrow> tables_outermost (kids t)"
  by (simp add: tables_outermost_def nodes_unfold[of t])

lemma tables_outermost_pruned:
  assumes "tables_outermost F"
  shows "tables_outermost (remove_forest i F)"
  unfolding tables_outermost_def
proof (intro ballI impI)
  fix c d assume c: "c \<in> set (nodes_f (remove_forest i F))" and ca: "carrier c"
    and d: "d \<in> set (descendants c)"
  from pruned_nodes(2)[OF c] obtain c0 where c0: "c0 \<in> set (nodes_f F)" "c = remove_node i c0" by blast
  from ca c0(2) have ca0: "carrier c0" by (simp add: carrier_def)
  from d c0(2) have "d \<in> set (nodes_f (remove_forest i (kids c0)))" by (simp add: descendants_def)
  from pruned_nodes(2)[OF this] obtain d0 where d0: "d0 \<in> set (nodes_f (kids c0))" "d = remove_node i d0"
    by blast
  from assms c0(1) ca0 d0(1) have "tag d0 \<noteq> tei ''table''"
    by (simp add: tables_outermost_def descendants_def)
  with d0(2) show "tag d \<noteq> tei ''table''" by simp
qed

lemma carrier_subtree_no_table:
  assumes "tables_outermost [k]" "carrier k" "\<not> table_match n k"
  shows "filter (table_match n) (nodes k) = []"
proof -
  have "\<forall>d \<in> set (nodes k). \<not> table_match n d"
  proof
    fix d assume "d \<in> set (nodes k)"
    then consider "d = k" | "d \<in> set (descendants k)" by (auto simp: nodes_unfold[of k] descendants_def)
    then show "\<not> table_match n d"
    proof cases
      case 1
      with assms(3) show ?thesis by simp
    next
      case 2
      with assms(1,2) nodes_self[of k] have "tag d \<noteq> tei ''table''"
        by (auto simp: tables_outermost_def)
      then show ?thesis using table_match_tag by blast
    qed
  qed
  then show ?thesis by (simp add: filter_empty_conv)
qed

lemma prune_keeps_tables:
  "tables_outermost [t] \<Longrightarrow>
     (\<forall>e \<in> set (nodes t). nid e = Some i \<longrightarrow> carrier e \<and> \<not> table_match n e) \<Longrightarrow>
     map shape (filter (table_match n) (nodes (remove_node i t)))
       = map shape (filter (table_match n) (nodes t))"
  "tables_outermost ts \<Longrightarrow>
     (\<forall>e \<in> set (nodes_f ts). nid e = Some i \<longrightarrow> carrier e \<and> \<not> table_match n e) \<Longrightarrow>
     map shape (filter (table_match n) (nodes_f (remove_forest i ts)))
       = map shape (filter (table_match n) (nodes_f ts))"
proof (induction i t and i ts rule: remove_node_remove_forest.induct)
  case (1 i j t a x ks)
  from "1.prems"(1) have "tables_outermost ks"
    using tables_outermost_kids by fastforce
  moreover from "1.prems"(2) have
    "\<forall>e \<in> set (nodes_f ks). nid e = Some i \<longrightarrow> carrier e \<and> \<not> table_match n e" by simp
  ultimately have "map shape (filter (table_match n) (nodes_f (remove_forest i ks)))
       = map shape (filter (table_match n) (nodes_f ks))" by (rule "1.IH")
  moreover have sh: "shape (Elem j t a x (remove_forest i ks)) = shape (Elem j t a x ks)"
    by (simp add: shape_def)
  moreover have "table_match n (Elem j t a x (remove_forest i ks)) = table_match n (Elem j t a x ks)"
    by (rule match_shape(1)) (rule sh)
  ultimately show ?case by simp
next
  case (2 i)
  then show ?case by simp
next
  case (3 i k ks)
  from "3.prems"(1) have ok: "tables_outermost [k]" and oks: "tables_outermost ks"
    using tables_outermost_append[of "[k]" ks] by simp_all
  from "3.prems"(2) have pk: "\<forall>e \<in> set (nodes k). nid e = Some i \<longrightarrow> carrier e \<and> \<not> table_match n e"
    and pks: "\<forall>e \<in> set (nodes_f ks). nid e = Some i \<longrightarrow> carrier e \<and> \<not> table_match n e"
    by simp_all
  show ?case
  proof (cases "nid k = Some i")
    case True
    with pk have "carrier k" "\<not> table_match n k" by (simp_all add: nodes_self)
    from carrier_subtree_no_table[OF ok this] "3.IH"(1)[OF True oks pks] True
    show ?thesis by simp
  next
    case False
    from "3.IH"(2)[OF False ok pk] "3.IH"(3)[OF False oks pks] False
    show ?thesis by simp
  qed
qed

lemma prune_all_keeps:
  assumes wf: "wf_source root0"
  shows "tables_outermost (kids t) \<Longrightarrow>
     (\<forall>e \<in> set (descendants t). shape e \<in> shape ` set (descendants root0)) \<Longrightarrow>
     (\<forall>x \<in> set L. nid x \<noteq> None \<and> shape x \<in> shape ` set (descendants root0)
                   \<and> carrier x \<and> \<not> table_match n x) \<Longrightarrow>
     tables_outermost (kids (prune_all L t))
     \<and> map shape (findall (table_match n) (prune_all L t)) = map shape (findall (table_match n) t)"
proof (induction L arbitrary: t)
  case Nil
  then show ?case by (simp add: prune_all_def)
next
  case (Cons x L)
  from Cons.prems(3) obtain i where i: "nid x = Some i" and
    x: "shape x \<in> shape ` set (descendants root0)" "carrier x" "\<not> table_match n x"
    by auto
  have same: "\<forall>e \<in> set (nodes_f (kids t)). nid e = Some i \<longrightarrow> carrier e \<and> \<not> table_match n e"
  proof (intro ballI impI)
    fix e assume e: "e \<in> set (nodes_f (kids t))" "nid e = Some i"
    with Cons.prems(2) have "shape e \<in> shape ` set (descendants root0)"
      by (simp add: descendants_def)
    from wf_shape_unique[OF wf this x(1)] e(2) i have "shape e = shape x" by (simp add: shape_def)
    from match_shape(1,5)[OF this] x(2,3) show "carrier e \<and> \<not> table_match n e" by simp
  qed
  let ?t' = "remove_node i t"
  have o': "tables_outermost (kids ?t')"
    using tables_outermost_pruned[OF Cons.prems(1)] by simp
  have s': "\<forall>e \<in> set (descendants ?t'). shape e \<in> shape ` set (descendants root0)"
  proof
    fix e assume "e \<in> set (descendants ?t')"
    then have "e \<in> set (nodes_f (remove_forest i (kids t)))" by (simp add: descendants_def)
    from pruned_nodes(2)[OF this] obtain e0 where "e0 \<in> set (nodes_f (kids t))" "e = remove_node i e0"
      by blast
    with Cons.prems(2) show "shape e \<in> shape ` set (descendants root0)"
      by (simp add: descendants_def)
  qed
  have f': "map shape (findall (table_match n) ?t') = map shape (findall (table_match n) t)"
    using prune_keeps_tables(2)[OF Cons.prems(1) same] by (simp add: findall_def descendants_def)
  from Cons.prems(3) have r: "\<forall>x \<in> set L. nid x \<noteq> None \<and> shape x \<in> shape ` set (descendants root0)
                   \<and> carrier x \<and> \<not> table_match n x" by simp
  from Cons.IH[OF o' s' r] f' i show ?case by (simp add: prune_all_def)
qed

lemma state_ok_root_shapes:
  assumes "state_ok root0 s"
  shows "\<forall>e \<in> set (descendants (root s)). nid e \<noteq> None \<and> shape e \<in> shape ` set (descendants root0)"
  using assms by (auto simp: state_ok_def forest_def descendants_def)

lemma surface_is_carrier: "surface_match m x \<Longrightarrow> carrier x \<and> \<not> table_match n x"
  by (auto simp: surface_match_def carrier_def table_match_def tei_def)

lemma page_content_is_carrier:
  assumes "x \<in> set (page_content m s)" "m \<noteq> n"
  shows "carrier x \<and> \<not> table_match n x"
proof -
  from page_content_kind[OF assms(1)] show ?thesis
  proof
    assume t: "table_match m x"
    then have "carrier x" by (simp add: table_match_def carrier_def)
    moreover from t assms(2) have "\<not> table_match n x" using table_match_unique by blast
    ultimately show ?thesis by simp
  next
    assume "ab_match m x"
    then show ?thesis by (auto simp: ab_match_def carrier_def table_match_def tei_def)
  qed
qed

text \<open>The tables of page \<open>n\<close> stay in the source tree until the loop reaches \<open>n\<close>.\<close>

lemma tables_kept_by_surfaces:
  assumes wf: "wf_source root0" and o: "tables_outermost [root0]"
  shows "tables_outermost (kids (root (surfaces_moved r root0)))
     \<and> map shape (findall (table_match n) (root (surfaces_moved r root0)))
         = map shape (findall (table_match n) root0)"
proof -
  have "\<forall>x \<in> set (extract_surface_elements root0 r).
          nid x \<noteq> None \<and> shape x \<in> shape ` set (descendants root0) \<and> carrier x \<and> \<not> table_match n x"
  proof
    fix x assume "x \<in> set (extract_surface_elements root0 r)"
    then obtain m where m: "x \<in> set (descendants root0)" "surface_match m x"
      by (auto simp: extract_surface_elements_def findall_def)
    from m(1) wf have "nid x \<noteq> None"
      by (auto simp: wf_source_def descendants_def nodes_unfold[of root0])
    with m surface_is_carrier[OF m(2)]
    show "nid x \<noteq> None \<and> shape x \<in> shape ` set (descendants root0) \<and> carrier x \<and> \<not> table_match n x"
      by simp
  qed
  from prune_all_keeps[OF wf tables_outermost_kids[OF o] _ this]
  show ?thesis by (simp add: surfaces_moved_inv(3)[OF wf])
qed

lemma tables_kept_by_pages:
  assumes wf: "wf_source root0"
  shows "state_ok root0 s \<Longrightarrow> n \<notin> set ps \<Longrightarrow> tables_outermost (kids (root s)) \<Longrightarrow>
     tables_outermost (kids (root (fold page_step ps s)))
     \<and> map shape (findall (table_match n) (root (fold page_step ps s)))
         = map shape (findall (table_match n) (root s))"
proof (induction ps arbitrary: s)
  case Nil
  then show ?case by simp
next
  case (Cons m ps)
  from Cons.prems(2) have mn: "m \<noteq> n" and nps: "n \<notin> set ps" by auto
  from page_step_effect[OF wf Cons.prems(1), of m] have
    ok': "state_ok root0 (page_step m s)"
    and rt: "root (page_step m s) = prune_all (page_content m s) (root s)" by blast+
  have "\<forall>x \<in> set (page_content m s).
          nid x \<noteq> None \<and> shape x \<in> shape ` set (descendants root0) \<and> carrier x \<and> \<not> table_match n x"
  proof
    fix x assume x: "x \<in> set (page_content m s)"
    with page_content_subset have "x \<in> set (descendants (root s))" by blast
    with state_ok_root_shapes[OF Cons.prems(1)] page_content_is_carrier[OF x mn]
    show "nid x \<noteq> None \<and> shape x \<in> shape ` set (descendants root0) \<and> carrier x \<and> \<not> table_match n x"
      by simp
  qed
  from prune_all_keeps[OF wf Cons.prems(3) _ this] state_ok_root_shapes[OF Cons.prems(1)]
  have st: "tables_outermost (kids (root (page_step m s)))"
     "map shape (findall (table_match n) (root (page_step m s))) = map shape (findall (table_match n) (root s))"
    by (simp_all add: rt)
  from Cons.IH[OF ok' nps st(1)] st(2) show ?case by simp
qed

lemma page_content_cases:
  "findall (table_match n) (root s) \<noteq> [] \<Longrightarrow> page_content n s = findall (table_match n) (root s)"
  "findall (table_match n) (root s) = [] \<Longrightarrow> page_content n s = findall (ab_match n) (root s)"
  by (simp_all add: page_content_def Let_def)

lemma pages_loop_page_breaks:
  assumes wf: "wf_source root0" and ok: "state_ok root0 s"
  shows "\<exists>cs. length cs = length ps
           \<and> div_elem (fold page_step ps s) = div_elem s @ concat (map2 (\<lambda>n c. pb n # c) ps cs)
           \<and> filter is_page_break (concat (map2 (\<lambda>n c. pb n # c) ps cs)) = map pb ps"
proof -
  from pages_loop[OF wf ok, of ps] obtain cs where
    cs: "length cs = length ps"
        "div_elem (fold page_step ps s) = div_elem s @ concat (map2 (\<lambda>n c. pb n # c) ps cs)"
        "\<forall>k < length ps. state_ok root0 (fold page_step (take k ps) s)
            \<and> map shape (cs ! k) = map shape (page_content (ps ! k) (fold page_step (take k ps) s))"
    by blast
  have nopb: "\<forall>c \<in> set cs. \<forall>x \<in> set c. \<not> is_page_break x"
  proof (intro ballI)
    fix c x assume c: "c \<in> set cs" and x: "x \<in> set c"
    from c obtain k where k: "k < length cs" "c = cs ! k" by (auto simp: in_set_conv_nth)
    with cs(1,3) have "map shape c = map shape (page_content (ps ! k) (fold page_step (take k ps) s))"
      by simp
    from same_shapes_member[OF this x] obtain x0 where
      x0: "x0 \<in> set (page_content (ps ! k) (fold page_step (take k ps) s))" "shape x = shape x0"
      by blast
    from match_not_page_break[OF page_content_kind[OF x0(1)]] match_shape(4)[OF x0(2)]
    show "\<not> is_page_break x" by simp
  qed
  from filter_page_breaks[OF cs(1)[symmetric] nopb] cs(1,2) show ?thesis by blast
qed

text \<open>
  Claim C1, as amended.  Let \<open>n\<close> be a page of the range and \<open>T\<close> the source tree as it
  is when the loop reaches \<open>n\<close>.  The children of \<open>div\<close> are \<open>before\<close>, the page break
  of \<open>n\<close>, the nodes \<open>ys\<close> and \<open>after\<close>, where \<open>before\<close> holds the page breaks of the
  earlier pages, \<open>ys\<close> holds no page break, and \<open>after\<close> is empty or starts with the
  next page break.  If \<open>T\<close> holds a table for \<open>n\<close>, then \<open>ys\<close> are exactly the tables of
  \<open>T\<close> for \<open>n\<close> (same identities, tags and attributes, in document order) and no text
  block; if \<open>T\<close> holds none, \<open>ys\<close> are exactly the text blocks of \<open>T\<close> for \<open>n\<close>.  When
  no table of the source document lies inside a surface, table or text block, the
  tables of \<open>T\<close> for \<open>n\<close> are those of the source document.
\<close>

theorem table_precedence:
  assumes "wf_source root0" and "n \<in> set (range_list (facs_start_range cfg))"
  shows "\<exists>before ys after.
       body_div (tei_document cfg root0) = before @ pb n # ys @ after
     \<and> filter is_page_break before = map pb [start (facs_start_range cfg) .. n - 1]
     \<and> (\<forall>y \<in> set ys. \<not> is_page_break y)
     \<and> (after = [] \<or> (\<exists>rest. after = pb (n + 1) # rest))
     \<and> (findall (table_match n) (root (state_before (facs_start_range cfg) root0 n)) \<noteq> [] \<longrightarrow>
          map shape ys
            = map shape (findall (table_match n) (root (state_before (facs_start_range cfg) root0 n)))
        \<and> (\<forall>y \<in> set ys. table_match n y \<and> tag y \<noteq> tei ''ab''))
     \<and> (findall (table_match n) (root (state_before (facs_start_range cfg) root0 n)) = [] \<longrightarrow>
          map shape ys
            = map shape (findall (ab_match n) (root (state_before (facs_start_range cfg) root0 n)))
        \<and> (\<forall>y \<in> set ys. ab_match n y))
     \<and> (tables_outermost [root0] \<longrightarrow>
          map shape (findall (table_match n) (root (state_before (facs_start_range cfg) root0 n)))
            = map shape (findall (table_match n) root0))"
proof -
  let ?r = "facs_start_range cfg"
  let ?s1 = "surfaces_moved ?r root0"
  let ?A = "[start ?r .. n - 1]"
  let ?B = "[n + 1 .. stop ?r - 1]"
  let ?sA = "state_before ?r root0 n"
  let ?T = "root ?sA"
  note wf = assms(1)
  note sm = surfaces_moved_inv[OF wf, of ?r]
  from assms(2) have bounds: "start ?r \<le> n" "n \<le> stop ?r - 1" by (simp_all add: range_list_def)
  then have split: "range_list ?r = ?A @ n # ?B" unfolding range_list_def by (rule upto_split3)
  have sA: "?sA = fold page_step ?A ?s1" by (simp add: state_before_def)
  from pages_loop[OF wf sm(1), of ?A] have okA: "state_ok root0 ?sA" by (simp add: sA)
  from pages_loop_page_breaks[OF wf sm(1), of ?A] sm(2) obtain csA where
    bf: "filter is_page_break (div_elem ?sA) = map pb ?A" by (auto simp: sA)
  from page_step_effect[OF wf okA, of n] obtain ys where
    ok': "state_ok root0 (page_step n ?sA)"
    and dn: "div_elem (page_step n ?sA) = div_elem ?sA @ pb n # ys"
    and sh: "map shape ys = map shape (page_content n ?sA)" by blast
  from pages_loop[OF wf ok', of ?B] obtain csB where
    csB: "length csB = length ?B"
      "div_elem (fold page_step ?B (page_step n ?sA))
         = div_elem (page_step n ?sA) @ concat (map2 (\<lambda>n c. pb n # c) ?B csB)"
    by blast
  let ?after = "concat (map2 (\<lambda>n c. pb n # c) ?B csB)"
  have fin: "moved_state ?r root0 = fold page_step ?B (page_step n ?sA)"
    by (simp add: moved_state_def split sA)
  have whole: "body_div (tei_document cfg root0) = div_elem ?sA @ pb n # ys @ ?after"
    by (simp add: body_div_tei_document fin csB(2) dn)
  have nopb: "\<forall>y \<in> set ys. \<not> is_page_break y"
  proof
    fix y assume "y \<in> set ys"
    from same_shapes_member[OF sh this] obtain x where
      x: "x \<in> set (page_content n ?sA)" "shape y = shape x" by blast
    from match_not_page_break[OF page_content_kind[OF x(1)]] match_shape(4)[OF x(2)]
    show "\<not> is_page_break y" by simp
  qed
  have aft: "?after = [] \<or> (\<exists>rest. ?after = pb (n + 1) # rest)"
  proof (cases "n + 1 \<le> stop ?r - 1")
    case True
    then have b: "?B = (n + 1) # [n + 1 + 1 .. stop ?r - 1]" by (rule upto_rec1)
    with csB(1) obtain c cs' where "csB = c # cs'" by (cases csB) auto
    with b show ?thesis by simp
  next
    case False
    then have "?B = []" by simp
    then show ?thesis by simp
  qed
  have tabs: "findall (table_match n) ?T \<noteq> [] \<longrightarrow>
          map shape ys = map shape (findall (table_match n) ?T)
        \<and> (\<forall>y \<in> set ys. table_match n y \<and> tag y \<noteq> tei ''ab'')"
  proof (intro impI conjI ballI)
    assume ne: "findall (table_match n) ?T \<noteq> []"
    from sh page_content_cases(1)[OF ne]
    show e: "map shape ys = map shape (findall (table_match n) ?T)" by simp
    fix y assume "y \<in> set ys"
    from same_shapes_member[OF e this] obtain x where
      x: "x \<in> set (findall (table_match n) ?T)" "shape y = shape x" by blast
    from x(1) have "table_match n x" by (simp add: findall_def)
    with match_shape(1)[OF x(2)] show t: "table_match n y" by simp
    then show "tag y \<noteq> tei ''ab''" by (simp add: table_match_def tei_def)
  qed
  have abs: "findall (table_match n) ?T = [] \<longrightarrow>
          map shape ys = map shape (findall (ab_match n) ?T) \<and> (\<forall>y \<in> set ys. ab_match n y)"
  proof (intro impI conjI ballI)
    assume em: "findall (table_match n) ?T = []"
    from sh page_content_cases(2)[OF em]
    show e: "map shape ys = map shape (findall (ab_match n) ?T)" by simp
    fix y assume "y \<in> set ys"
    from same_shapes_member[OF e this] obtain x where
      x: "x \<in> set (findall (ab_match n) ?T)" "shape y = shape x" by blast
    from x(1) have "ab_match n x" by (simp add: findall_def)
    with match_shape(2)[OF x(2)] show "ab_match n y" by simp
  qed
  have outer: "tables_outermost [root0] \<longrightarrow>
          map shape (findall (table_match n) ?T) = map shape (findall (table_match n) root0)"
  proof
    assume o: "tables_outermost [root0]"
    have nA: "n \<notin> set ?A" by simp
    from tables_kept_by_surfaces[OF wf o, of ?r n] have
      k1: "tables_outermost (kids (root ?s1))"
      "map shape (findall (table_match n) (root ?s1)) = map shape (findall (table_match n) root0)"
      by simp_all
    from tables_kept_by_pages[OF wf sm(1) nA k1(1)] k1(2)
    show "map shape (findall (table_match n) ?T) = map shape (findall (table_match n) root0)"
      by (simp add: sA)
  qed
  from whole bf nopb aft tabs abs outer show ?thesis by blast
qed

text \<open>
  Claim C1 as stated fails when a table lies inside a node that is moved earlier.  In
  \<open>nested_tree\<close> the source document has a table for page 82, but it has left the
  source tree inside the text block of page 81: after the page break of 82 the text
  block of page 82 is appended, and no table.
\<close>

theorem nested_table_not_selected:
  "wf_source nested_tree
   \<and> findall (table_match 82) nested_tree \<noteq> []
   \<and> body_div (tei_document nested_config nested_tree) =
       [pb 81,
        Elem (Some 3) (tei ''ab'') [(''facs'', ''#facs_81_r1'')] (Some ''first'')
          [Elem (Some 4) (tei ''table'') [(''facs'', ''#facs_82_t1'')] None []],
        pb 82,
        Elem (Some 5) (tei ''ab'') [(''facs'', ''#facs_82_r1'')] (Some ''second'') []]"
  by code_simp

lemma sample_tree_facts:
  "tables_outermost [sample_tree]"
  "findall (table_match 82) sample_tree \<noteq> []"
  "findall (table_match 81) sample_tree = []"
  "82 \<in> set (range_list (facs_start_range script_config))"
  "81 \<in> set (range_list (facs_start_range script_config))"
  by code_simp+

theorem table_precedence_witness:
  "wf_source sample_tree
   \<and> 82 \<in> set (range_list (facs_start_range script_config))
   \<and> tables_outermost [sample_tree]
   \<and> findall (table_match 82) sample_tree \<noteq> []
   \<and> (\<exists>before ys after.
         body_div (tei_document script_config sample_tree) = before @ pb 82 # ys @ after
       \<and> map shape ys = map shape (findall (table_match 82) sample_tree)
       \<and> (\<forall>y \<in> set ys. table_match 82 y \<and> tag y \<noteq> tei ''ab''))
   \<and> findall (table_match 81) sample_tree = []
   \<and> (\<exists>before ys after.
         body_div (tei_document script_config sample_tree) = before @ pb 81 # ys @ after
       \<and> (\<forall>y \<in> set ys. ab_match 81 y))"
proof -
  note f = sample_tree_facts
  from table_precedence [OF wf_sample_tree f(4)] obtain before ys after where
    a: "body_div (tei_document script_config sample_tree) = before @ pb 82 # ys @ after"
       "findall (table_match 82) (root (state_before (facs_start_range script_config) sample_tree 82)) \<noteq> [] \<longrightarrow>
          map shape ys
            = map shape (findall (table_match 82) (root (state_before (facs_start_range script_config) sample_tree 82)))
        \<and> (\<forall>y \<in> set ys. table_match 82 y \<and> tag y \<noteq> tei ''ab'')"
       "tables_outermost [sample_tree] \<longrightarrow>
          map shape (findall (table_match 82) (root (state_before (facs_start_range script_config) sample_tree 82)))
            = map shape (findall (table_match 82) sample_tree)"
    by blast
  from a(3) f(1) have e: "map shape (findall (table_match 82) (root (state_before (facs_start_range script_config) sample_tree 82)))
            = map shape (findall (table_match 82) sample_tree)" by blast
  with f(2) have "findall (table_match 82) (root (state_before (facs_start_range script_config) sample_tree 82)) \<noteq> []"
    by auto
  with a(2) e have p82: "map shape ys = map shape (findall (table_match 82) sample_tree)
       \<and> (\<forall>y \<in> set ys. table_match 82 y \<and> tag y \<noteq> tei ''ab'')" by simp
  from table_precedence [OF wf_sample_tree f(5)] obtain before' ys' after' where
    b: "body_div (tei_document script_config sample_tree) = before' @ pb 81 # ys' @ after'"
       "findall (table_match 81) (root (state_before (facs_start_range script_config) sample_tree 81)) = [] \<longrightarrow>
          map shape ys'
            = map shape (findall (ab_match 81) (root (state_before (facs_start_range script_config) sample_tree 81)))
        \<and> (\<forall>y \<in> set ys'. ab_match 81 y)"
       "tables_outermost [sample_tree] \<longrightarrow>
          map shape (findall (table_match 81) (root (state_before (facs_start_range script_config) sample_tree 81)))
            = map shape (findall (table_match 81) sample_tree)"
    by blast
  from b(3) f(1,3) have "findall (table_match 81) (root (state_before (facs_start_range script_config) sample_tree 81)) = []"
    by simp
  with b(2) have p81: "\<forall>y \<in> set ys'. ab_match 81 y" by simp
  from wf_sample_tree f a(1) p82 b(1) p81 show ?thesis by blast
qed

end
